theory Spec2Isabelle
  imports Main "HOL-Library.Word"
begin

section \<open>The TRBBFI Brainfuck interpreter\<close>

text \<open>
  A shallow embedding of class \<^verbatim>\<open>BrainfuckInterpreter\<close> of \<^verbatim>\<open>src/trbbfi.cpp\<close>
  (the class is the same, line for line, in \<^verbatim>\<open>src/trbffi.cpp\<close>).

  \<^item> \<^verbatim>\<open>std::vector<unsigned char> memory\<close> is a list of 8-bit words, so that
    \<^verbatim>\<open>memory[memptr]++\<close> wraps as \<^verbatim>\<open>unsigned char\<close> does.
  \<^item> \<^verbatim>\<open>size_t\<close> indices (\<^verbatim>\<open>memptr\<close>, \<^verbatim>\<open>codeptr\<close>, \<^verbatim>\<open>pos\<close>) are natural numbers: they
    are bounded by the tape ceiling plus one and by the program length, far from \<open>2^64\<close>.
    The \<^verbatim>\<open>int\<close> bracket counters are integers; they stay within the program length,
    so the model is the code for programs of fewer than \<open>2^31\<close> symbols.
  \<^item> \<^verbatim>\<open>std::stack<size_t> loop_stack\<close> is a list whose head is the top.
  \<^item> The standard streams are two more fields: \<open>cin\<close>, the reads still to come, and
    \<open>cout\<close>, the bytes written by \<^verbatim>\<open>.\<close> so far. The diagnostic texts the code prints
    on an abort are represented by the failure reason of the result, and the
    \<^verbatim>\<open>debug_mode\<close> trace, which goes to the error stream and changes nothing else, is
    left out.
  \<^item> Indexing a vector out of range is undefined in C++; the model reads
    \<open>memory ! memptr\<close>, and the invariant \<open>memptr < length memory\<close> is proved for the
    dispatch loop below.
\<close>

type_synonym byte = "8 word"

text \<open>One read of the input stream: a byte, or a read that fails.\<close>

datatype rd = Byte byte | ReadError

record interp =
  memory :: "byte list"
  code :: "char list"
  memptr :: nat
  codeptr :: nat
  loop_stack :: "nat list"
  cin :: "rd list"
  cout :: "byte list"

text \<open>The reasons for which \<^verbatim>\<open>execute\<close> returns \<^verbatim>\<open>false\<close>, with the position it prints.\<close>

datatype failure =
    UnmatchedBrackets
  | UnmatchedOpenBracket nat
  | UnmatchedCloseBracket nat
  | MemoryLimitExceeded

datatype outcome = Completed | Failed failure

text \<open>The constructor: 30000 zero cells, both pointers 0, no program.\<close>

definition init :: "rd list \<Rightarrow> interp" where
  "init inp = \<lparr>memory = replicate 30000 0, code = [], memptr = 0, codeptr = 0,
     loop_stack = [], cin = inp, cout = []\<rparr>"

subsection \<open>loadCode\<close>

definition is_instr :: "char \<Rightarrow> bool" where
  "is_instr c \<longleftrightarrow> c = CHR ''>'' \<or> c = CHR ''<'' \<or> c = CHR ''+'' \<or> c = CHR ''-'' \<or>
     c = CHR ''.'' \<or> c = CHR '','' \<or> c = CHR ''['' \<or> c = CHR '']''"

definition loadCode :: "string \<Rightarrow> interp \<Rightarrow> interp" where
  "loadCode program s = s\<lparr>code := filter is_instr program\<rparr>"

subsection \<open>validateBrackets\<close>

text \<open>
  The loop over the program, with the counter \<^verbatim>\<open>balance\<close> as an argument. The source
  counts in a 32-bit \<^verbatim>\<open>int\<close>; the model counts in the integers, which is the same as long
  as the counter stays within that range, as it does on a program of fewer than \<open>2^31\<close>
  symbols. What is stated of the validation itself carries this bound.
\<close>

fun validate_loop :: "char list \<Rightarrow> int \<Rightarrow> bool" where
  "validate_loop [] balance = (balance = 0)"
| "validate_loop (c # cs) balance =
     (let b1 = (if c = CHR ''['' then balance + 1 else balance);
          b2 = (if c = CHR '']'' then b1 - 1 else b1)
      in if b2 < 0 then False else validate_loop cs b2)"

definition validateBrackets :: "interp \<Rightarrow> bool" where
  "validateBrackets s = validate_loop (code s) 0"

text \<open>
  The balance as the specification words it: \<open>+1\<close> for each \<^verbatim>\<open>[\<close>, \<open>-1\<close> for each
  \<^verbatim>\<open>]\<close>. It is what the validation is compared with.
\<close>

definition bracket_delta :: "char \<Rightarrow> int" where
  "bracket_delta c = (if c = CHR ''['' then 1 else if c = CHR '']'' then - 1 else 0)"

definition spec_balance :: "char list \<Rightarrow> int" where
  "spec_balance cs = sum_list (map bracket_delta cs)"

subsection \<open>reset\<close>

text \<open>\<^verbatim>\<open>std::fill(memory.begin(), memory.end(), 0)\<close> and the loop that pops until empty.\<close>

definition fill_zero :: "byte list \<Rightarrow> byte list" where
  "fill_zero m = map (\<lambda>_. 0) m"

fun pop_all :: "nat list \<Rightarrow> nat list" where
  "pop_all [] = []"
| "pop_all (x # xs) = pop_all xs"

definition reset :: "interp \<Rightarrow> interp" where
  "reset s = s\<lparr>memory := fill_zero (memory s), memptr := 0, codeptr := 0,
     loop_stack := pop_all (loop_stack s)\<rparr>"

subsection \<open>execute\<close>

text \<open>\<^verbatim>\<open>memory.resize(n, 0)\<close>: cut to \<open>n\<close> cells, or padded with zero cells up to \<open>n\<close>.\<close>

definition resize :: "byte list \<Rightarrow> nat \<Rightarrow> byte list" where
  "resize m n = take n m @ replicate (n - length m) 0"

text \<open>
  \<^verbatim>\<open>std::cin.get()\<close> followed by \<^verbatim>\<open>std::cin.fail()\<close>: the value returned, the fail
  flag, and the rest of the stream. At the end of the stream and on a failing read the
  value is \<^verbatim>\<open>EOF\<close> and the flag is set.
\<close>

definition EOF :: int where
  "EOF = - 1"

fun cin_get :: "rd list \<Rightarrow> int \<times> bool \<times> rd list" where
  "cin_get [] = (EOF, True, [])"
| "cin_get (ReadError # r) = (EOF, True, r)"
| "cin_get (Byte b # r) = (uint b, False, r)"

text \<open>The forward scan of \<^verbatim>\<open>[\<close> on a zero cell; it returns \<^verbatim>\<open>pos\<close> and \<^verbatim>\<open>balance\<close>.\<close>

function scan_fwd :: "char list \<Rightarrow> nat \<Rightarrow> int \<Rightarrow> nat \<times> int" where
  "scan_fwd cs pos balance =
     (if pos < length cs \<and> balance > 0
      then scan_fwd cs (pos + 1)
             (let b1 = (if cs ! pos = CHR ''['' then balance + 1 else balance)
              in if cs ! pos = CHR '']'' then b1 - 1 else b1)
      else (pos, balance))"
  by pat_completeness auto
termination
  by (relation "measure (\<lambda>(cs, pos, balance). length cs - pos)") auto

declare scan_fwd.simps [simp del]

text \<open>
  The \<^verbatim>\<open>switch\<close> on \<^verbatim>\<open>code[codeptr]\<close>. The first component is the reason when the
  case returns \<^verbatim>\<open>false\<close>, and \<open>None\<close> when it reaches its \<^verbatim>\<open>break\<close>; the second is
  the state the case leaves.
\<close>

definition dispatch :: "interp \<Rightarrow> failure option \<times> interp" where
  "dispatch s =
     (let c = code s ! codeptr s in
      if c = CHR ''>'' then
        (let s1 = s\<lparr>memptr := memptr s + 1\<rparr> in
         if memptr s1 \<ge> length (memory s1) then
           if length (memory s1) \<ge> 1000000 then (Some MemoryLimitExceeded, s1)
           else (None, s1\<lparr>memory :=
                   resize (memory s1) (min (length (memory s1) * 2) 1000000)\<rparr>)
         else (None, s1))
      else if c = CHR ''<'' then
        (None, if memptr s > 0 then s\<lparr>memptr := memptr s - 1\<rparr> else s)
      else if c = CHR ''+'' then
        (None, s\<lparr>memory := (memory s)[memptr s := memory s ! memptr s + 1]\<rparr>)
      else if c = CHR ''-'' then
        (None, s\<lparr>memory := (memory s)[memptr s := memory s ! memptr s - 1]\<rparr>)
      else if c = CHR ''.'' then
        (None, s\<lparr>cout := cout s @ [memory s ! memptr s]\<rparr>)
      else if c = CHR '','' then
        (case cin_get (cin s) of (input, fail, rest) \<Rightarrow>
           if fail then (None, s\<lparr>memory := (memory s)[memptr s := 0], cin := rest\<rparr>)
           else (None, s\<lparr>memory := (memory s)[memptr s :=
                          (if input = EOF then 0 else word_of_int input)],
                        cin := rest\<rparr>))
      else if c = CHR ''['' then
        (if memory s ! memptr s = 0 then
           (case scan_fwd (code s) (codeptr s + 1) 1 of (pos, balance) \<Rightarrow>
              if balance > 0 then (Some (UnmatchedOpenBracket (codeptr s)), s)
              else (None, s\<lparr>codeptr := pos - 1\<rparr>))
         else (None, s\<lparr>loop_stack := codeptr s # loop_stack s\<rparr>))
      else if c = CHR '']'' then
        (if loop_stack s = [] then (Some (UnmatchedCloseBracket (codeptr s)), s)
         else if memory s ! memptr s \<noteq> 0 then (None, s\<lparr>codeptr := hd (loop_stack s)\<rparr>)
         else (None, s\<lparr>loop_stack := tl (loop_stack s)\<rparr>))
      else (None, s))"

text \<open>\<^verbatim>\<open>codeptr++\<close> at the end of the loop body.\<close>

definition advance :: "interp \<Rightarrow> interp" where
  "advance s = s\<lparr>codeptr := codeptr s + 1\<rparr>"

text \<open>
  The dispatch loop \<^verbatim>\<open>while (codeptr < code.size())\<close>. It need not end (the program
  \<^verbatim>\<open>+[]\<close> loops for ever), so it is a partial function: \<open>None\<close> is a run that never
  returns, \<open>Some (r, s)\<close> a run that returns \<open>r\<close> and leaves the state \<open>s\<close>.
\<close>

partial_function (option) run_loop :: "interp \<Rightarrow> (outcome \<times> interp) option" where
  "run_loop s =
     (if codeptr s < length (code s) then
        (case dispatch s of
           (Some f, s') \<Rightarrow> Some (Failed f, s')
         | (None, s') \<Rightarrow> run_loop (advance s'))
      else Some (Completed, s))"

text \<open>The four assignments of \<^verbatim>\<open>execute\<close> between the validation and the loop.\<close>

definition prepare :: "interp \<Rightarrow> interp" where
  "prepare s = s\<lparr>codeptr := 0, memptr := 0, loop_stack := pop_all (loop_stack s),
     memory := fill_zero (memory s)\<rparr>"

definition execute :: "interp \<Rightarrow> (outcome \<times> interp) option" where
  "execute s =
     (if \<not> validateBrackets s then Some (Failed UnmatchedBrackets, s)
      else run_loop (prepare s))"

text \<open>
  The same loop with a bound on the number of instructions, to speak of the states a
  run goes through, also when it never ends: \<open>Inl s\<close> is the state after \<open>n\<close>
  instructions of a run still going, \<open>Inr (r, s)\<close> a run that has returned within them.
\<close>

fun run_steps :: "nat \<Rightarrow> interp \<Rightarrow> interp + outcome \<times> interp" where
  "run_steps 0 s = Inl s"
| "run_steps (Suc n) s =
     (if codeptr s < length (code s) then
        (case dispatch s of
           (Some f, s') \<Rightarrow> Inr (Failed f, s')
         | (None, s') \<Rightarrow> run_steps n (advance s'))
      else Inr (Completed, s))"

subsection \<open>Bookkeeping for the proofs\<close>

text \<open>
  Not part of the program: \<open>opens cs k\<close> is the list, innermost first, of the positions
  of the \<^verbatim>\<open>[\<close> among the first \<open>k\<close> symbols of \<open>cs\<close> that no \<^verbatim>\<open>]\<close> among them has
  closed. The invariant of the dispatch loop says that the loop-return stack is this
  list at the instruction pointer.
\<close>

fun opens :: "char list \<Rightarrow> nat \<Rightarrow> nat list" where
  "opens cs 0 = []"
| "opens cs (Suc k) =
     (if cs ! k = CHR ''['' then k # opens cs k
      else if cs ! k = CHR '']'' then tl (opens cs k)
      else opens cs k)"

definition loop_inv :: "interp \<Rightarrow> bool" where
  "loop_inv s \<longleftrightarrow> validateBrackets s \<and> codeptr s \<le> length (code s) \<and>
     loop_stack s = opens (code s) (codeptr s)"

section \<open>Basic facts\<close>

lemma pop_all_Nil [simp]: "pop_all xs = []"
  by (induction xs) simp_all

lemma fill_zero_replicate: "fill_zero m = replicate (length m) 0"
  by (simp add: fill_zero_def map_replicate_const)

lemma length_fill_zero [simp]: "length (fill_zero m) = length m"
  by (simp add: fill_zero_def)

lemma length_resize [simp]: "length (resize m n) = n"
  by (simp add: resize_def)

lemma resize_grow: "length m \<le> n \<Longrightarrow> resize m n = m @ replicate (n - length m) 0"
  by (simp add: resize_def)

lemma nth_resize:
  "length m \<le> n \<Longrightarrow> i < n \<Longrightarrow> resize m n ! i = (if i < length m then m ! i else 0)"
  by (simp add: resize_grow nth_append)

subsection \<open>The cases of the switch\<close>

lemma dispatch_right:
  "code s ! codeptr s = CHR ''>'' \<Longrightarrow>
   dispatch s =
     (if memptr s + 1 \<ge> length (memory s) then
        if length (memory s) \<ge> 1000000 then (Some MemoryLimitExceeded, s\<lparr>memptr := memptr s + 1\<rparr>)
        else (None, s\<lparr>memptr := memptr s + 1,
                memory := resize (memory s) (min (length (memory s) * 2) 1000000)\<rparr>)
      else (None, s\<lparr>memptr := memptr s + 1\<rparr>))"
  by (simp add: dispatch_def Let_def)

lemma dispatch_left:
  "code s ! codeptr s = CHR ''<'' \<Longrightarrow>
   dispatch s = (None, if memptr s > 0 then s\<lparr>memptr := memptr s - 1\<rparr> else s)"
  by (simp add: dispatch_def)

lemma dispatch_plus:
  "code s ! codeptr s = CHR ''+'' \<Longrightarrow>
   dispatch s = (None, s\<lparr>memory := (memory s)[memptr s := memory s ! memptr s + 1]\<rparr>)"
  by (simp add: dispatch_def)

lemma dispatch_minus:
  "code s ! codeptr s = CHR ''-'' \<Longrightarrow>
   dispatch s = (None, s\<lparr>memory := (memory s)[memptr s := memory s ! memptr s - 1]\<rparr>)"
  by (simp add: dispatch_def)

lemma dispatch_dot:
  "code s ! codeptr s = CHR ''.'' \<Longrightarrow>
   dispatch s = (None, s\<lparr>cout := cout s @ [memory s ! memptr s]\<rparr>)"
  by (simp add: dispatch_def)

lemma uint_byte_not_EOF: "uint (b :: byte) \<noteq> EOF"
proof -
  have "0 \<le> uint b" by simp
  then show ?thesis unfolding EOF_def by linarith
qed

lemma dispatch_comma:
  assumes "code s ! codeptr s = CHR '',''"
  shows "dispatch s = (None, s\<lparr>memory := (memory s)[memptr s :=
       (case cin s of Byte b # r \<Rightarrow> b | _ \<Rightarrow> 0)], cin := tl (cin s)\<rparr>)"
proof (cases "cin s")
  case Nil
  then show ?thesis using assms by (simp add: dispatch_def)
next
  case (Cons r rs)
  then show ?thesis using assms uint_byte_not_EOF by (cases r) (simp_all add: dispatch_def)
qed

lemma dispatch_open:
  "code s ! codeptr s = CHR ''['' \<Longrightarrow>
   dispatch s =
     (if memory s ! memptr s = 0 then
        if snd (scan_fwd (code s) (codeptr s + 1) 1) > 0
        then (Some (UnmatchedOpenBracket (codeptr s)), s)
        else (None, s\<lparr>codeptr := fst (scan_fwd (code s) (codeptr s + 1) 1) - 1\<rparr>)
      else (None, s\<lparr>loop_stack := codeptr s # loop_stack s\<rparr>))"
  by (simp add: dispatch_def split: prod.splits)

lemma dispatch_close:
  "code s ! codeptr s = CHR '']'' \<Longrightarrow>
   dispatch s =
     (if loop_stack s = [] then (Some (UnmatchedCloseBracket (codeptr s)), s)
      else if memory s ! memptr s \<noteq> 0 then (None, s\<lparr>codeptr := hd (loop_stack s)\<rparr>)
      else (None, s\<lparr>loop_stack := tl (loop_stack s)\<rparr>))"
  by (simp add: dispatch_def)

lemma dispatch_other:
  "\<not> is_instr (code s ! codeptr s) \<Longrightarrow> dispatch s = (None, s)"
  by (simp add: dispatch_def is_instr_def)

lemma instr_cases:
  obtains "c = CHR ''>''" | "c = CHR ''<''" | "c = CHR ''+''" | "c = CHR ''-''"
    | "c = CHR ''.''" | "c = CHR '',''" | "c = CHR ''[''" | "c = CHR '']''" | "\<not> is_instr c"
  unfolding is_instr_def by blast

lemma dispatch_code: "code (snd (dispatch s)) = code s"
  by (rule instr_cases [of "code s ! codeptr s"])
    (simp_all add: dispatch_right dispatch_left dispatch_plus dispatch_minus dispatch_dot
      dispatch_comma dispatch_open dispatch_close dispatch_other)

subsection \<open>Unfolding the dispatch loop\<close>

lemma run_loop_step:
  "codeptr s < length (code s) \<Longrightarrow> dispatch s = (None, s') \<Longrightarrow>
   run_loop s = run_loop (advance s')"
  by (subst run_loop.simps) simp

lemma run_loop_fail:
  "codeptr s < length (code s) \<Longrightarrow> dispatch s = (Some f, s') \<Longrightarrow>
   run_loop s = Some (Failed f, s')"
  by (subst run_loop.simps) simp

lemmas eval_simps = dispatch_def advance_def prepare_def loadCode_def init_def is_instr_def
     fill_zero_replicate execute_def validateBrackets_def Let_def

text \<open>A property kept by every instruction that reaches its \<^verbatim>\<open>break\<close> holds along the run.\<close>

lemma run_steps_Inl:
  assumes step: "\<And>u. P u \<Longrightarrow> codeptr u < length (code u) \<Longrightarrow> fst (dispatch u) = None \<Longrightarrow>
      P (advance (snd (dispatch u)))"
  shows "P s \<Longrightarrow> run_steps n s = Inl t \<Longrightarrow> P t"
proof (induction n arbitrary: s)
  case 0
  then show ?case by simp
next
  case (Suc n)
  from Suc.prems(2) have lt: "codeptr s < length (code s)"
    by (simp split: if_splits)
  obtain r s' where d: "dispatch s = (r, s')" by (cases "dispatch s")
  with Suc.prems(2) lt have r: "r = None" and rest: "run_steps n (advance s') = Inl t"
    by (auto split: option.splits)
  have "P (advance s')" using step [OF Suc.prems(1) lt] d r by simp
  from Suc.IH [OF this rest] show ?case .
qed

lemma run_steps_Inr:
  assumes step: "\<And>u. P u \<Longrightarrow> codeptr u < length (code u) \<Longrightarrow> fst (dispatch u) = None \<Longrightarrow>
      P (advance (snd (dispatch u)))"
  shows "P s \<Longrightarrow> run_steps n s = Inr (r, t) \<Longrightarrow>
    (r = Completed \<and> P t \<and> length (code t) \<le> codeptr t) \<or>
    (\<exists>u f. P u \<and> codeptr u < length (code u) \<and> dispatch u = (Some f, t) \<and> r = Failed f)"
proof (induction n arbitrary: s)
  case 0
  then show ?case by simp
next
  case (Suc n)
  show ?case
  proof (cases "codeptr s < length (code s)")
    case False
    with Suc.prems show ?thesis by simp
  next
    case lt: True
    obtain r0 s' where d: "dispatch s = (r0, s')" by (cases "dispatch s")
    show ?thesis
    proof (cases r0)
      case None
      with Suc.prems(2) lt d have rest: "run_steps n (advance s') = Inr (r, t)" by simp
      have "P (advance s')" using step [OF Suc.prems(1) lt] d None by simp
      from Suc.IH [OF this rest] show ?thesis .
    next
      case (Some f)
      with Suc.prems(2) lt d have "r = Failed f" "t = s'" by simp_all
      then show ?thesis using Suc.prems(1) lt d Some by blast
    qed
  qed
qed

lemma run_steps_run_loop: "run_steps n s = Inr r \<Longrightarrow> run_loop s = Some r"
proof (induction n arbitrary: s)
  case 0
  then show ?case by simp
next
  case (Suc n)
  show ?case
  proof (cases "codeptr s < length (code s)")
    case False
    with Suc.prems show ?thesis by (subst run_loop.simps) simp
  next
    case lt: True
    obtain r0 s' where d: "dispatch s = (r0, s')" by (cases "dispatch s")
    show ?thesis
    proof (cases r0)
      case None
      with Suc.prems lt d have "run_steps n (advance s') = Inr r" by simp
      from Suc.IH [OF this] show ?thesis using lt d None by (subst run_loop.simps) simp
    next
      case (Some f)
      with Suc.prems lt d show ?thesis by (subst run_loop.simps) auto
    qed
  qed
qed

lemma run_loop_run_steps:
  assumes "run_loop s = Some r"
  shows "\<exists>n. run_steps n s = Inr r"
proof (rule run_loop.raw_induct [where P = "\<lambda>s r. \<exists>n. run_steps n s = Inr r", OF _ assms])
  fix f s r
  assume IH: "\<And>x y. f x = Some y \<Longrightarrow> \<exists>n. run_steps n x = Inr y"
    and body: "(if codeptr s < length (code s)
         then case dispatch s of (None, s') \<Rightarrow> f (advance s')
              | (Some e, s') \<Rightarrow> Some (Failed e, s')
         else Some (Completed, s)) = Some r"
  show "\<exists>n. run_steps n s = Inr r"
  proof (cases "codeptr s < length (code s)")
    case False
    with body have "run_steps (Suc 0) s = Inr r" by simp
    then show ?thesis by blast
  next
    case lt: True
    obtain r0 s' where d: "dispatch s = (r0, s')" by (cases "dispatch s")
    show ?thesis
    proof (cases r0)
      case None
      with body lt d have "f (advance s') = Some r" by simp
      from IH [OF this] obtain n where "run_steps n (advance s') = Inr r" by blast
      then have "run_steps (Suc n) s = Inr r" using lt d None by simp
      then show ?thesis by blast
    next
      case (Some e)
      with body lt d have "run_steps (Suc 0) s = Inr r" by auto
      then show ?thesis by blast
    qed
  qed
qed

lemma run_loop_iff_steps: "run_loop s = Some r \<longleftrightarrow> (\<exists>n. run_steps n s = Inr r)"
  using run_loop_run_steps run_steps_run_loop by blast

section \<open>Validation against the balance of the specification\<close>

lemma spec_balance_Nil: "spec_balance [] = 0"
  by (simp add: spec_balance_def)

lemma spec_balance_Cons: "spec_balance (c # cs) = bracket_delta c + spec_balance cs"
  by (simp add: spec_balance_def)

lemma spec_balance_append: "spec_balance (xs @ ys) = spec_balance xs + spec_balance ys"
  by (simp add: spec_balance_def)

text \<open>
  The loop started with a counter \<open>b\<close>: it accepts exactly when \<open>b\<close> plus the balance of
  every prefix is not negative and \<open>b\<close> plus the balance of the whole is zero.
\<close>

lemma validate_loop_iff:
  "0 \<le> b \<Longrightarrow> validate_loop cs b \<longleftrightarrow>
     (\<forall>k \<le> length cs. 0 \<le> b + spec_balance (take k cs)) \<and> b + spec_balance cs = 0"
proof (induction cs arbitrary: b)
  case Nil
  then show ?case by (simp add: spec_balance_Nil)
next
  case (Cons c cs)
  let ?b2 = "b + bracket_delta c"
  have step: "validate_loop (c # cs) b \<longleftrightarrow> (0 \<le> ?b2 \<and> validate_loop cs ?b2)"
    by (auto simp: bracket_delta_def Let_def)
  have all: "(\<forall>k \<le> length (c # cs). 0 \<le> b + spec_balance (take k (c # cs))) \<longleftrightarrow>
      (\<forall>k \<le> length cs. 0 \<le> ?b2 + spec_balance (take k cs))"
  proof
    assume l: "\<forall>k \<le> length (c # cs). 0 \<le> b + spec_balance (take k (c # cs))"
    show "\<forall>k \<le> length cs. 0 \<le> ?b2 + spec_balance (take k cs)"
    proof (intro allI impI)
      fix k assume "k \<le> length cs"
      then have "Suc k \<le> length (c # cs)" by simp
      with l have "0 \<le> b + spec_balance (take (Suc k) (c # cs))" by blast
      then show "0 \<le> ?b2 + spec_balance (take k cs)" by (simp add: spec_balance_Cons)
    qed
  next
    assume r: "\<forall>k \<le> length cs. 0 \<le> ?b2 + spec_balance (take k cs)"
    show "\<forall>k \<le> length (c # cs). 0 \<le> b + spec_balance (take k (c # cs))"
    proof (intro allI impI)
      fix k assume k: "k \<le> length (c # cs)"
      show "0 \<le> b + spec_balance (take k (c # cs))"
      proof (cases k)
        case 0
        then show ?thesis using Cons.prems by (simp add: spec_balance_Nil)
      next
        case (Suc j)
        then have "j \<le> length cs" using k by simp
        then have "0 \<le> ?b2 + spec_balance (take j cs)" using r by simp
        then show ?thesis using Suc by (simp add: spec_balance_Cons)
      qed
    qed
  qed
  have zero: "0 \<le> ?b2" if "\<forall>k \<le> length cs. 0 \<le> ?b2 + spec_balance (take k cs)"
    using that [rule_format, of 0] by (simp add: spec_balance_Nil)
  show ?case
    unfolding step all
    using Cons.IH [of ?b2] zero by (auto simp: spec_balance_Cons add.assoc)
qed

section \<open>The loop-return stack and the open brackets\<close>

lemma opens_top:
  "opens cs k = p # rest \<Longrightarrow> p < k \<and> cs ! p = CHR ''['' \<and> opens cs p = rest"
proof (induction k arbitrary: p rest rule: less_induct)
  case (less k)
  show ?case
  proof (cases k)
    case 0
    with less.prems show ?thesis by simp
  next
    case (Suc j)
    consider (op) "cs ! j = CHR ''[''" | (cl) "cs ! j = CHR '']''"
      | (other) "cs ! j \<noteq> CHR ''[''" "cs ! j \<noteq> CHR '']''" by blast
    then show ?thesis
    proof cases
      case op
      with less.prems Suc show ?thesis by auto
    next
      case cl
      with less.prems Suc have "tl (opens cs j) = p # rest" by simp
      then obtain q where q: "opens cs j = q # p # rest"
        by (cases "opens cs j") auto
      have "j < k" using Suc by simp
      from less.IH [OF this q] have qj: "q < j" and oq: "opens cs q = p # rest" by simp_all
      have "q < k" using qj Suc by simp
      from less.IH [OF this oq] qj Suc show ?thesis by simp
    next
      case other
      with less.prems Suc have o: "opens cs j = p # rest" by simp
      have "j < k" using Suc by simp
      from less.IH [OF this o] Suc show ?thesis by simp
    qed
  qed
qed

lemma opens_length:
  assumes "\<forall>k \<le> length cs. 0 \<le> spec_balance (take k cs)"
  shows "k \<le> length cs \<Longrightarrow> int (length (opens cs k)) = spec_balance (take k cs)"
proof (induction k)
  case 0
  then show ?case by (simp add: spec_balance_Nil)
next
  case (Suc k)
  then have k: "k < length cs" and IH: "int (length (opens cs k)) = spec_balance (take k cs)"
    by simp_all
  have t: "spec_balance (take (Suc k) cs) = spec_balance (take k cs) + bracket_delta (cs ! k)"
    using k by (simp add: take_Suc_conv_app_nth spec_balance_append spec_balance_Cons spec_balance_Nil)
  have nn: "0 \<le> spec_balance (take (Suc k) cs)"
    using assms Suc.prems by blast
  show ?case
  proof (cases "cs ! k = CHR '']''")
    case True
    then have "0 < int (length (opens cs k))" using nn t IH by (simp add: bracket_delta_def)
    then have "opens cs k \<noteq> []" by auto
    then have "int (length (tl (opens cs k))) = int (length (opens cs k)) - 1"
      by (cases "opens cs k") simp_all
    then show ?thesis using True t IH by (simp add: bracket_delta_def)
  next
    case False
    then show ?thesis using t IH by (simp add: bracket_delta_def)
  qed
qed

lemma valid_opens_end: "validate_loop cs 0 \<Longrightarrow> opens cs (length cs) = []"
  using opens_length [of cs "length cs"] validate_loop_iff [of 0 cs] by simp

lemma valid_opens_close:
  assumes "validate_loop cs 0" "k < length cs" "cs ! k = CHR '']''"
  shows "opens cs k \<noteq> []"
proof -
  have pre: "\<forall>k \<le> length cs. 0 \<le> spec_balance (take k cs)"
    using assms(1) validate_loop_iff [of 0 cs] by simp
  have "spec_balance (take (Suc k) cs) = spec_balance (take k cs) + bracket_delta (cs ! k)"
    using assms(2) by (simp add: take_Suc_conv_app_nth spec_balance_append spec_balance_Cons spec_balance_Nil)
  moreover have "0 \<le> spec_balance (take (Suc k) cs)" using pre assms(2) by (simp del: take_Suc)
  moreover have "int (length (opens cs k)) = spec_balance (take k cs)"
    using opens_length [OF pre, of k] assms(2) by simp
  ultimately show ?thesis using assms(3) by (auto simp: bracket_delta_def)
qed

lemma scan_fwd_opens:
  "pos \<le> length cs \<Longrightarrow> 0 < b \<Longrightarrow> nat b \<le> length (opens cs pos) \<Longrightarrow>
   opens cs (length cs) = [] \<Longrightarrow>
   \<exists>pos'. scan_fwd cs pos b = (pos', 0) \<and> pos < pos' \<and> pos' \<le> length cs \<and>
     opens cs pos' = drop (nat b) (opens cs pos)"
proof (induction cs pos b rule: scan_fwd.induct)
  case (1 cs pos b)
  have lt: "pos < length cs"
  proof (rule ccontr)
    assume "\<not> pos < length cs"
    then have "pos = length cs" using "1.prems"(1) by simp
    then show False using "1.prems" by simp
  qed
  define b' where "b' = b + bracket_delta (cs ! pos)"
  have b'_eq: "(let b1 = (if cs ! pos = CHR ''['' then b + 1 else b)
              in if cs ! pos = CHR '']'' then b1 - 1 else b1) = b'"
    by (simp add: b'_def bracket_delta_def)
  have unf: "scan_fwd cs pos b = scan_fwd cs (pos + 1) b'"
    using lt "1.prems"(2) by (subst scan_fwd.simps) (simp add: b'_eq)
  have o: "opens cs (pos + 1) =
      (if cs ! pos = CHR ''['' then pos # opens cs pos
       else if cs ! pos = CHR '']'' then tl (opens cs pos) else opens cs pos)"
    by simp
  show ?case
  proof (cases "b' = 0")
    case True
    then have b1: "b = 1" and cl: "cs ! pos = CHR '']''"
      using "1.prems"(2) by (auto simp: b'_def bracket_delta_def split: if_splits)
    have "scan_fwd cs (pos + 1) 0 = (pos + 1, 0)" by (subst scan_fwd.simps) simp
    then show ?thesis using unf True b1 cl lt o by (simp add: drop_Suc)
  next
    case False
    then have pos': "0 < b'" using "1.prems"(2) by (auto simp: b'_def bracket_delta_def split: if_splits)
    have len: "nat b' \<le> length (opens cs (pos + 1))"
      using "1.prems"(2,3) by (auto simp: b'_def bracket_delta_def o)
    have "\<exists>pos'. scan_fwd cs (pos + 1) b' = (pos', 0) \<and> pos + 1 < pos' \<and> pos' \<le> length cs \<and>
        opens cs pos' = drop (nat b') (opens cs (pos + 1))"
      using "1.IH" [unfolded b'_eq] lt "1.prems"(2,4) pos' len by simp
    then obtain pos' where p: "scan_fwd cs (pos + 1) b' = (pos', 0)" "pos + 1 < pos'"
      "pos' \<le> length cs" "opens cs pos' = drop (nat b') (opens cs (pos + 1))" by blast
    have "drop (nat b') (opens cs (pos + 1)) = drop (nat b) (opens cs pos)"
    proof -
      obtain m where m: "nat b = Suc m" using "1.prems"(2) by (cases "nat b") auto
      show ?thesis
      proof (cases "cs ! pos = CHR ''[''")
        case True
        then have "nat b' = Suc (nat b)" using "1.prems"(2) by (simp add: b'_def bracket_delta_def)
        then show ?thesis using True o by simp
      next
        case nop: False
        show ?thesis
        proof (cases "cs ! pos = CHR '']''")
          case True
          then have "nat b' = m" using m by (simp add: b'_def bracket_delta_def)
          then show ?thesis using True nop o m by (simp add: drop_Suc)
        next
          case False
          then have "b' = b" using nop by (simp add: b'_def bracket_delta_def)
          then show ?thesis using False nop o by simp
        qed
      qed
    qed
    then show ?thesis using unf p by simp
  qed
qed

lemma opens_suffix: "opens cs q = xs @ p # ys \<Longrightarrow> opens cs p = ys"
proof (induction xs arbitrary: q)
  case Nil
  then show ?case using opens_top [of cs q p ys] by simp
next
  case (Cons x xs)
  then have "opens cs q = x # (xs @ p # ys)" by simp
  from opens_top [OF this] have "opens cs x = xs @ p # ys" by simp
  from Cons.IH [OF this] show ?case .
qed

lemma opens_mem_length:
  assumes "p \<in> set (opens cs q)"
  shows "length (opens cs p) < length (opens cs q)"
proof -
  from assms obtain xs ys where s: "opens cs q = xs @ p # ys" by (auto dest: split_list)
  from opens_suffix [OF s] s show ?thesis by simp
qed

lemma opens_mem_back:
  "p \<in> set (opens cs k) \<Longrightarrow> p < q \<Longrightarrow> q \<le> k \<Longrightarrow> p \<in> set (opens cs q)"
proof (induction k)
  case 0
  then show ?case by simp
next
  case (Suc k)
  show ?case
  proof (cases "q = Suc k")
    case True
    with Suc.prems show ?thesis by simp
  next
    case False
    with Suc.prems have qk: "q \<le> k" and pk: "p \<noteq> k" by simp_all
    have tl: "x \<in> set (tl ys) \<Longrightarrow> x \<in> set ys" for x :: nat and ys
      by (cases ys) simp_all
    have "p \<in> set (opens cs k)"
      using Suc.prems(1) pk by (auto split: if_splits dest: tl)
    from Suc.IH [OF this Suc.prems(2) qk] show ?thesis .
  qed
qed

lemma scan_fwd_match:
  "c - pos = d \<Longrightarrow> pos \<le> c \<Longrightarrow> c < length cs \<Longrightarrow> cs ! c = CHR '']'' \<Longrightarrow>
   length (opens cs c) = Suc L \<Longrightarrow>
   (\<forall>q. pos \<le> q \<and> q \<le> c \<longrightarrow> L < length (opens cs q)) \<Longrightarrow>
   b = int (length (opens cs pos)) - int L \<Longrightarrow>
   scan_fwd cs pos b = (c + 1, 0)"
proof (induction d arbitrary: pos b)
  case 0
  then have pc: "pos = c" by simp
  have b1: "b = 1" using 0 pc by simp
  have "scan_fwd cs c 1 = scan_fwd cs (c + 1) 0"
    using 0 by (subst scan_fwd.simps) simp
  also have "\<dots> = (c + 1, 0)" by (subst scan_fwd.simps) simp
  finally show ?case using pc b1 by simp
next
  case (Suc d)
  have lt: "pos < c" using Suc.prems(1) by simp
  have ltl: "pos < length cs" using lt Suc.prems(3) by simp
  have bpos: "0 < b" using Suc.prems(6,7) lt by (simp add: less_imp_le)
  have ne: "opens cs pos \<noteq> []" using Suc.prems(6) lt by (auto simp: less_imp_le)
  define b' where "b' = b + bracket_delta (cs ! pos)"
  have b'_eq: "(let b1 = (if cs ! pos = CHR ''['' then b + 1 else b)
              in if cs ! pos = CHR '']'' then b1 - 1 else b1) = b'"
    by (simp add: b'_def bracket_delta_def)
  have unf: "scan_fwd cs pos b = scan_fwd cs (pos + 1) b'"
    using ltl bpos by (subst scan_fwd.simps) (simp add: b'_eq)
  have tl: "int (length (tl (opens cs pos))) = int (length (opens cs pos)) - 1"
    using ne by (cases "opens cs pos") simp_all
  have b': "b' = int (length (opens cs (pos + 1))) - int L"
    using Suc.prems(7) tl by (simp add: b'_def bracket_delta_def)
  have "scan_fwd cs (pos + 1) b' = (c + 1, 0)"
  proof (rule Suc.IH)
    show "c - (pos + 1) = d" using Suc.prems(1) by simp
    show "pos + 1 \<le> c" using lt by simp
    show "\<forall>q. pos + 1 \<le> q \<and> q \<le> c \<longrightarrow> L < length (opens cs q)"
      using Suc.prems(6) by simp
  qed (use Suc.prems b' in simp_all)
  then show ?case using unf by simp
qed

lemma opens_top_matches:
  assumes o: "opens cs c = p # rest" and c: "c < length cs" "cs ! c = CHR '']''"
  shows "p < c \<and> cs ! p = CHR ''['' \<and> scan_fwd cs (p + 1) 1 = (c + 1, 0)"
proof -
  from opens_top [OF o] have pc: "p < c" and br: "cs ! p = CHR ''[''"
    and op: "opens cs p = rest" by simp_all
  have mem: "p \<in> set (opens cs c)" using o by simp
  have above: "\<forall>q. p + 1 \<le> q \<and> q \<le> c \<longrightarrow> length rest < length (opens cs q)"
  proof (intro allI impI)
    fix q assume q: "p + 1 \<le> q \<and> q \<le> c"
    then have "p \<in> set (opens cs q)" using opens_mem_back [OF mem, of q] by simp
    from opens_mem_length [OF this] show "length rest < length (opens cs q)"
      using op by simp
  qed
  have "scan_fwd cs (p + 1) 1 = (c + 1, 0)"
  proof (rule scan_fwd_match [where L = "length rest" and d = "c - (p + 1)"])
    show "p + 1 \<le> c" using pc by simp
    show "length (opens cs c) = Suc (length rest)" using o by simp
    show "1 = int (length (opens cs (p + 1))) - int (length rest)" using br op by simp
  qed (use c above in simp_all)
  then show ?thesis using pc br by simp
qed

subsection \<open>The invariant of the dispatch loop\<close>

lemma loop_inv_open_skip:
  assumes inv: "loop_inv s" and lt: "codeptr s < length (code s)"
    and c: "code s ! codeptr s = CHR ''[''"
  shows "\<exists>pos'. scan_fwd (code s) (codeptr s + 1) 1 = (pos', 0) \<and> codeptr s + 1 < pos' \<and>
    pos' \<le> length (code s) \<and> opens (code s) pos' = opens (code s) (codeptr s)"
proof -
  have e: "opens (code s) (length (code s)) = []"
    using inv by (simp add: loop_inv_def validateBrackets_def valid_opens_end)
  have o: "opens (code s) (codeptr s + 1) = codeptr s # opens (code s) (codeptr s)"
    using c by simp
  have "\<exists>pos'. scan_fwd (code s) (codeptr s + 1) 1 = (pos', 0) \<and> codeptr s + 1 < pos' \<and>
      pos' \<le> length (code s) \<and>
      opens (code s) pos' = drop (nat 1) (opens (code s) (codeptr s + 1))"
    by (rule scan_fwd_opens) (use lt e o in simp_all)
  then show ?thesis unfolding o by simp
qed

lemma dispatch_loop_inv:
  assumes inv: "loop_inv s" and lt: "codeptr s < length (code s)"
  shows "fst (dispatch s) \<noteq> Some (UnmatchedOpenBracket p)"
    and "fst (dispatch s) \<noteq> Some (UnmatchedCloseBracket p)"
    and "fst (dispatch s) \<noteq> Some UnmatchedBrackets"
    and "fst (dispatch s) = None \<Longrightarrow> loop_inv (advance (snd (dispatch s)))"
    and "fst (dispatch s) = Some MemoryLimitExceeded \<Longrightarrow>
           loop_stack (snd (dispatch s)) = opens (code s) (codeptr s) \<and>
           codeptr (snd (dispatch s)) = codeptr s"
proof -
  have v: "validateBrackets s" and st: "loop_stack s = opens (code s) (codeptr s)"
    using inv by (simp_all add: loop_inv_def)
  have all: "fst (dispatch s) \<noteq> Some (UnmatchedOpenBracket p) \<and>
    fst (dispatch s) \<noteq> Some (UnmatchedCloseBracket p) \<and>
    fst (dispatch s) \<noteq> Some UnmatchedBrackets \<and>
    (fst (dispatch s) = None \<longrightarrow> loop_inv (advance (snd (dispatch s)))) \<and>
    (fst (dispatch s) = Some MemoryLimitExceeded \<longrightarrow>
           loop_stack (snd (dispatch s)) = opens (code s) (codeptr s) \<and>
           codeptr (snd (dispatch s)) = codeptr s)"
  proof (rule instr_cases [of "code s ! codeptr s"])
    assume c: "code s ! codeptr s = CHR ''>''"
    then show ?thesis using inv lt
      by (simp add: dispatch_right loop_inv_def advance_def validateBrackets_def)
  next
    assume c: "code s ! codeptr s = CHR ''<''"
    then show ?thesis using inv lt
      by (simp add: dispatch_left loop_inv_def advance_def validateBrackets_def)
  next
    assume c: "code s ! codeptr s = CHR ''+''"
    then show ?thesis using inv lt
      by (simp add: dispatch_plus loop_inv_def advance_def validateBrackets_def)
  next
    assume c: "code s ! codeptr s = CHR ''-''"
    then show ?thesis using inv lt
      by (simp add: dispatch_minus loop_inv_def advance_def validateBrackets_def)
  next
    assume c: "code s ! codeptr s = CHR ''.''"
    then show ?thesis using inv lt
      by (simp add: dispatch_dot loop_inv_def advance_def validateBrackets_def)
  next
    assume c: "code s ! codeptr s = CHR '',''"
    then show ?thesis using inv lt
      by (simp add: dispatch_comma loop_inv_def advance_def validateBrackets_def)
  next
    assume c: "code s ! codeptr s = CHR ''[''"
    from loop_inv_open_skip [OF inv lt c] obtain pos' where
      p: "scan_fwd (code s) (codeptr s + 1) 1 = (pos', 0)" "codeptr s + 1 < pos'"
        "pos' \<le> length (code s)" "opens (code s) pos' = opens (code s) (codeptr s)"
      by blast
    obtain j where j: "pos' = Suc j" using p(2) by (cases pos') auto
    have o: "opens (code s) (Suc (codeptr s)) = codeptr s # opens (code s) (codeptr s)"
      using c by simp
    show ?thesis using inv lt c p o unfolding j
      by (simp add: dispatch_open loop_inv_def advance_def validateBrackets_def
          del: opens.simps)
  next
    assume c: "code s ! codeptr s = CHR '']''"
    have ne: "opens (code s) (codeptr s) \<noteq> []"
      using valid_opens_close [of "code s" "codeptr s"] v lt c by (simp add: validateBrackets_def)
    then obtain q rest where q: "opens (code s) (codeptr s) = q # rest"
      by (cases "opens (code s) (codeptr s)") auto
    from opens_top [OF q] have qlt: "q < codeptr s" and qc: "code s ! q = CHR ''[''"
      and qo: "opens (code s) q = rest" by simp_all
    have oq: "opens (code s) (Suc q) = q # rest" using qc qo by simp
    have oc: "opens (code s) (Suc (codeptr s)) = rest" using c q by simp
    show ?thesis using inv lt c q qlt oq oc
      by (simp add: dispatch_close loop_inv_def advance_def validateBrackets_def
          del: opens.simps)
  next
    assume c: "\<not> is_instr (code s ! codeptr s)"
    then have "code s ! codeptr s \<noteq> CHR ''[''" "code s ! codeptr s \<noteq> CHR '']''"
      by (auto simp: is_instr_def)
    then show ?thesis using inv lt c
      by (simp add: dispatch_other loop_inv_def advance_def validateBrackets_def)
  qed
  from all show "fst (dispatch s) \<noteq> Some (UnmatchedOpenBracket p)"
    and "fst (dispatch s) \<noteq> Some (UnmatchedCloseBracket p)"
    and "fst (dispatch s) \<noteq> Some UnmatchedBrackets"
    and "fst (dispatch s) = None \<Longrightarrow> loop_inv (advance (snd (dispatch s)))"
    and "fst (dispatch s) = Some MemoryLimitExceeded \<Longrightarrow>
           loop_stack (snd (dispatch s)) = opens (code s) (codeptr s) \<and>
           codeptr (snd (dispatch s)) = codeptr s"
    by simp_all
qed

lemma loop_inv_prepare: "validateBrackets s \<Longrightarrow> loop_inv (prepare s)"
  by (simp add: loop_inv_def prepare_def validateBrackets_def)

lemma valid_scan_open:
  assumes v: "validateBrackets s" and k: "k < length (code s)" and c: "code s ! k = CHR ''[''"
  shows "snd (scan_fwd (code s) (k + 1) 1) = 0"
proof -
  have e: "opens (code s) (length (code s)) = []"
    using v by (simp add: validateBrackets_def valid_opens_end)
  have o: "opens (code s) (k + 1) = k # opens (code s) k" using c by simp
  have "\<exists>pos'. scan_fwd (code s) (k + 1) 1 = (pos', 0) \<and> k + 1 < pos' \<and>
      pos' \<le> length (code s) \<and> opens (code s) pos' = drop (nat 1) (opens (code s) (k + 1))"
    by (rule scan_fwd_opens) (use k e o in simp_all)
  then show ?thesis by auto
qed

lemma loop_inv_step:
  "loop_inv u \<Longrightarrow> codeptr u < length (code u) \<Longrightarrow> fst (dispatch u) = None \<Longrightarrow>
   loop_inv (advance (snd (dispatch u)))"
  by (rule dispatch_loop_inv(4))

lemma run_steps_loop_inv:
  "validateBrackets s \<Longrightarrow> run_steps n (prepare s) = Inl t \<Longrightarrow> loop_inv t"
  using run_steps_Inl [of loop_inv "prepare s" n t, OF loop_inv_step] loop_inv_prepare by blast

lemma run_steps_result:
  assumes v: "validateBrackets s" and r: "run_steps n (prepare s) = Inr (r, t)"
  shows "(r = Completed \<and> loop_inv t \<and> length (code t) \<le> codeptr t) \<or>
    (\<exists>u. loop_inv u \<and> codeptr u < length (code u) \<and>
       dispatch u = (Some MemoryLimitExceeded, t) \<and> r = Failed MemoryLimitExceeded)"
proof -
  from run_steps_Inr [of loop_inv "prepare s" n r t, OF loop_inv_step loop_inv_prepare [OF v] r]
  consider "r = Completed \<and> loop_inv t \<and> length (code t) \<le> codeptr t"
    | u f where "loop_inv u" "codeptr u < length (code u)" "dispatch u = (Some f, t)" "r = Failed f"
    by blast
  then show ?thesis
  proof cases
    case 1
    then show ?thesis by blast
  next
    case 2
    have "f = MemoryLimitExceeded"
      using dispatch_loop_inv(1-3) [OF 2(1,2)] 2(3) by (cases f) auto
    with 2 show ?thesis by blast
  qed
qed

section \<open>The data pointer and the tape\<close>

lemma tape_inv_step:
  assumes "memptr u < length (memory u)" "fst (dispatch u) = None"
  shows "memptr (advance (snd (dispatch u))) < length (memory (advance (snd (dispatch u))))"
proof (rule instr_cases [of "code u ! codeptr u"])
  assume c: "code u ! codeptr u = CHR ''>''"
  have "0 < length (memory u)" using assms(1) by linarith
  then show ?thesis using assms c
    by (auto simp: dispatch_right advance_def split: if_splits)
next
  assume c: "code u ! codeptr u = CHR ''[''"
  then show ?thesis using assms by (auto simp: dispatch_open advance_def split: if_splits)
next
  assume c: "code u ! codeptr u = CHR '']''"
  then show ?thesis using assms by (auto simp: dispatch_close advance_def split: if_splits)
next
  assume c: "code u ! codeptr u = CHR ''<''"
  then show ?thesis using assms by (auto simp: dispatch_left advance_def)
qed (use assms in \<open>simp_all add: dispatch_plus dispatch_minus dispatch_dot
      dispatch_comma dispatch_other advance_def\<close>)

lemma tape_inv_abort:
  assumes "memptr u < length (memory u)" "dispatch u = (Some MemoryLimitExceeded, t)"
  shows "memptr t = length (memory t) \<and> 1000000 \<le> length (memory t)"
proof (rule instr_cases [of "code u ! codeptr u"])
  assume c: "code u ! codeptr u = CHR ''>''"
  then show ?thesis using assms by (auto simp: dispatch_right split: if_splits)
next
  assume c: "code u ! codeptr u = CHR ''[''"
  then show ?thesis using assms by (auto simp: dispatch_open split: if_splits)
next
  assume c: "code u ! codeptr u = CHR '']''"
  then show ?thesis using assms by (auto simp: dispatch_close split: if_splits)
qed (use assms in \<open>simp_all add: dispatch_left dispatch_plus dispatch_minus dispatch_dot
      dispatch_comma dispatch_other\<close>)

lemma tape_inv_prepare: "memory s \<noteq> [] \<Longrightarrow> memptr (prepare s) < length (memory (prepare s))"
  by (simp add: prepare_def)

lemma run_left_plus:
  assumes "memory s \<noteq> []"
  shows "execute (loadCode ''<<<+'' s) =
      Some (Completed, (prepare s)\<lparr>code := ''<<<+'', memory := (memory (prepare s))[0 := 1],
        codeptr := 4\<rparr>)"
    and "execute (loadCode ''+'' s) =
      Some (Completed, (prepare s)\<lparr>code := ''+'', memory := (memory (prepare s))[0 := 1],
        codeptr := 1\<rparr>)"
  using assms by (simp_all add: eval_simps run_loop.simps)

subsection \<open>Two programs that run into the ceiling\<close>

text \<open>
  A program of \<^verbatim>\<open>>\<close> symbols only, and the loop \<^verbatim>\<open>+[>+]\<close>, followed symbolically:
  each walks the data pointer to the ceiling and is aborted there.
\<close>

lemma run_right_fails:
  "1000000 - memptr s = k \<Longrightarrow> code s = replicate n CHR ''>'' \<Longrightarrow>
   memptr s < length (memory s) \<Longrightarrow> length (memory s) \<le> 1000000 \<Longrightarrow>
   k \<le> n - codeptr s \<Longrightarrow>
   \<exists>t. run_loop s = Some (Failed MemoryLimitExceeded, t) \<and>
     memptr t = length (memory t) \<and> length (memory t) = 1000000 \<and>
     loop_stack t = loop_stack s \<and> take (length (memory s)) (memory t) = memory s"
proof (induction k arbitrary: s)
  case 0
  then show ?case by simp
next
  case (Suc k)
  have lt: "codeptr s < length (code s)" using Suc.prems by simp
  have c: "code s ! codeptr s = CHR ''>''" using Suc.prems lt by simp
  consider (stay) "memptr s + 1 < length (memory s)"
    | (full) "length (memory s) \<le> memptr s + 1" "1000000 \<le> length (memory s)"
    | (grow) "length (memory s) \<le> memptr s + 1" "length (memory s) < 1000000"
    by linarith
  then show ?case
  proof cases
    case stay
    let ?s' = "s\<lparr>memptr := memptr s + 1\<rparr>"
    have d: "dispatch s = (None, ?s')" using c stay by (simp add: dispatch_right)
    have "\<exists>t. run_loop (advance ?s') = Some (Failed MemoryLimitExceeded, t) \<and>
        memptr t = length (memory t) \<and> length (memory t) = 1000000 \<and>
        loop_stack t = loop_stack (advance ?s') \<and>
        take (length (memory (advance ?s'))) (memory t) = memory (advance ?s')"
      by (rule Suc.IH) (use Suc.prems stay in \<open>simp_all add: advance_def\<close>)
    then show ?thesis unfolding run_loop_step [OF lt d] by (simp add: advance_def)
  next
    case full
    let ?s' = "s\<lparr>memptr := memptr s + 1\<rparr>"
    have d: "dispatch s = (Some MemoryLimitExceeded, ?s')"
      using c full by (simp add: dispatch_right)
    show ?thesis unfolding run_loop_fail [OF lt d] using full Suc.prems by simp
  next
    case grow
    let ?n = "min (length (memory s) * 2) 1000000"
    let ?s' = "s\<lparr>memptr := memptr s + 1, memory := resize (memory s) ?n\<rparr>"
    have d: "dispatch s = (None, ?s')" using c grow by (simp add: dispatch_right)
    have "0 < length (memory s)" using Suc.prems(3) by linarith
    then have n: "length (memory s) < ?n" using grow by simp
    have "\<exists>t. run_loop (advance ?s') = Some (Failed MemoryLimitExceeded, t) \<and>
        memptr t = length (memory t) \<and> length (memory t) = 1000000 \<and>
        loop_stack t = loop_stack (advance ?s') \<and>
        take (length (memory (advance ?s'))) (memory t) = memory (advance ?s')"
      by (rule Suc.IH) (use Suc.prems grow n in \<open>simp_all add: advance_def\<close>)
    then obtain t where t: "run_loop (advance ?s') = Some (Failed MemoryLimitExceeded, t)"
      "memptr t = length (memory t)" "length (memory t) = 1000000"
      "loop_stack t = loop_stack s" "take ?n (memory t) = resize (memory s) ?n"
      by (auto simp: advance_def)
    have "take (length (memory s)) (take ?n (memory t)) = memory s"
      unfolding t(5) using n by (simp add: resize_grow)
    then have "take (length (memory s)) (memory t) = memory s"
      using n by (simp add: min_absorb1)
    then show ?thesis unfolding run_loop_step [OF lt d] using t by simp
  qed
qed

lemma run_grow_loop:
  "1000000 - memptr s = k \<Longrightarrow> code s = ''+[>+]'' \<Longrightarrow> codeptr s = 2 \<Longrightarrow>
   loop_stack s = [1] \<Longrightarrow> memptr s < length (memory s) \<Longrightarrow>
   length (memory s) \<le> 1000000 \<Longrightarrow>
   (\<forall>i. memptr s < i \<and> i < length (memory s) \<longrightarrow> memory s ! i = 0) \<Longrightarrow>
   \<exists>t. run_loop s = Some (Failed MemoryLimitExceeded, t) \<and> loop_stack t = [1] \<and>
     memptr t = length (memory t)"
proof (induction k arbitrary: s)
  case 0
  then show ?case by simp
next
  case (Suc k)
  have lt: "codeptr s < length (code s)" using Suc.prems by simp
  have c: "code s ! codeptr s = CHR ''>''" using Suc.prems by simp
  show ?case
  proof (cases "length (memory s) \<le> memptr s + 1 \<and> 1000000 \<le> length (memory s)")
    case True
    let ?s' = "s\<lparr>memptr := memptr s + 1\<rparr>"
    have d: "dispatch s = (Some MemoryLimitExceeded, ?s')"
      using c True by (simp add: dispatch_right)
    show ?thesis unfolding run_loop_fail [OF lt d] using True Suc.prems by simp
  next
    case False
    define mem where "mem = (if length (memory s) \<le> memptr s + 1
       then resize (memory s) (min (length (memory s) * 2) 1000000) else memory s)"
    define s1 where "s1 = s\<lparr>memptr := memptr s + 1, memory := mem, codeptr := 3\<rparr>"
    define s2 where "s2 = s1\<lparr>memory := mem[memptr s + 1 := 1], codeptr := 4\<rparr>"
    define s3 where "s3 = s2\<lparr>codeptr := 2\<rparr>"
    have pos: "0 < length (memory s)" using Suc.prems(5) by linarith
    have len: "memptr s + 1 < length mem" "length mem \<le> 1000000"
      "length (memory s) \<le> length mem"
      using False Suc.prems(5,6) pos by (auto simp: mem_def)
    have cell: "mem ! i = 0" if "memptr s < i" "i < length mem" for i
    proof (cases "length (memory s) \<le> memptr s + 1")
      case True
      then have "mem ! i = (if i < length (memory s) then memory s ! i else 0)"
        using that len by (simp add: mem_def nth_resize)
      then show ?thesis using Suc.prems(7) that by auto
    next
      case False
      then show ?thesis using Suc.prems(7) that by (simp add: mem_def)
    qed
    have d1: "dispatch s = (None, s\<lparr>memptr := memptr s + 1, memory := mem\<rparr>)"
      using c False by (auto simp: dispatch_right mem_def)
    have r1: "run_loop s = run_loop s1"
      unfolding run_loop_step [OF lt d1] using Suc.prems(3) by (simp add: advance_def s1_def)
    have d2: "dispatch s1 = (None, s1\<lparr>memory := mem[memptr s + 1 := 1]\<rparr>)"
      using Suc.prems(2) cell [of "memptr s + 1"] len by (simp add: dispatch_plus s1_def)
    have r2: "run_loop s1 = run_loop s2"
      by (subst run_loop_step [OF _ d2])
        (use Suc.prems(2) in \<open>simp_all add: advance_def s1_def s2_def\<close>)
    have nz: "memory s2 ! memptr s2 \<noteq> 0" using len by (simp add: s2_def s1_def)
    have d3: "dispatch s2 = (None, s2\<lparr>codeptr := 1\<rparr>)"
      using Suc.prems(2,4) nz by (simp add: dispatch_close s2_def s1_def)
    have r3: "run_loop s2 = run_loop s3"
      by (subst run_loop_step [OF _ d3])
        (use Suc.prems(2) in \<open>simp_all add: advance_def s1_def s2_def s3_def numeral_2_eq_2\<close>)
    have "\<exists>t. run_loop s3 = Some (Failed MemoryLimitExceeded, t) \<and> loop_stack t = [1] \<and>
        memptr t = length (memory t)"
    proof (rule Suc.IH)
      show "1000000 - memptr s3 = k" using Suc.prems(1) by (simp add: s3_def s2_def s1_def)
      show "code s3 = ''+[>+]''" using Suc.prems(2) by (simp add: s3_def s2_def s1_def)
      show "codeptr s3 = 2" by (simp add: s3_def)
      show "loop_stack s3 = [1]" using Suc.prems(4) by (simp add: s3_def s2_def s1_def)
      show "memptr s3 < length (memory s3)" using len by (simp add: s3_def s2_def s1_def)
      show "length (memory s3) \<le> 1000000" using len by (simp add: s3_def s2_def s1_def)
      show "\<forall>i. memptr s3 < i \<and> i < length (memory s3) \<longrightarrow> memory s3 ! i = 0"
        using cell by (simp add: s3_def s2_def s1_def)
    qed
    then show ?thesis unfolding r1 r2 r3 .
  qed
qed

lemma grow_loop_start:
  "run_loop (prepare (loadCode ''+[>+]'' (init inp))) =
   run_loop ((init inp)\<lparr>code := ''+[>+]'', memory := (replicate 30000 0)[0 := 1],
     codeptr := 2, loop_stack := [1]\<rparr>)"
  apply (subst run_loop.simps)
  apply (simp add: eval_simps)
  apply (subst run_loop.simps)
  apply (simp add: eval_simps numeral_2_eq_2)
  done

lemma grow_loop_result:
  "\<exists>t. execute (loadCode ''+[>+]'' (init [])) = Some (Failed MemoryLimitExceeded, t) \<and>
     loop_stack t = [1] \<and> memptr t = length (memory t)"
proof -
  let ?s = "(init [])\<lparr>code := ''+[>+]'', memory := (replicate 30000 0)[0 := 1],
     codeptr := 2, loop_stack := [1]\<rparr>"
  have v: "validateBrackets (loadCode ''+[>+]'' (init []))" by (simp add: eval_simps)
  have "\<exists>t. run_loop ?s = Some (Failed MemoryLimitExceeded, t) \<and> loop_stack t = [1] \<and>
     memptr t = length (memory t)"
    by (rule run_grow_loop [where k = 1000000]) (simp_all add: init_def)
  then show ?thesis using v unfolding execute_def grow_loop_start by auto
qed

lemma right_run_result:
  "\<exists>t. execute (loadCode (replicate 1000000 CHR ''>'') (init [])) =
       Some (Failed MemoryLimitExceeded, t) \<and>
     memptr t = length (memory t)"
proof -
  let ?X = "loadCode (replicate 1000000 CHR ''>'') (init [])"
  have v: "validateBrackets ?X"
    using validate_loop_iff [of 0 "replicate 1000000 CHR ''>''"]
    by (simp add: validateBrackets_def loadCode_def is_instr_def spec_balance_def
        bracket_delta_def map_replicate_const sum_list_replicate)
  have "\<exists>t. run_loop (prepare ?X) = Some (Failed MemoryLimitExceeded, t) \<and>
      memptr t = length (memory t) \<and> length (memory t) = 1000000 \<and>
      loop_stack t = loop_stack (prepare ?X) \<and>
      take (length (memory (prepare ?X))) (memory t) = memory (prepare ?X)"
    by (rule run_right_fails [where k = 1000000 and n = 1000000])
      (simp_all add: prepare_def loadCode_def is_instr_def init_def)
  then show ?thesis using v by (auto simp: execute_def)
qed

lemma unat_byte_inc: "unat ((x::byte) + 1) = (unat x + 1) mod 256"
  by (simp add: unat_word_ariths)

lemma unat_byte_dec: "unat ((x::byte) - 1) = (unat x + 255) mod 256"
proof -
  have "x - 1 = x + 255" by simp
  then show ?thesis by (simp only: unat_word_ariths) simp
qed

section \<open>The claims\<close>

text \<open>
  Claim C1. Executing \<^verbatim>\<open>]\<close> with a nonempty loop-return stack and a nonzero current
  cell sets the instruction pointer to the top of the stack and leaves the stack as it
  is, so that after \<^verbatim>\<open>codeptr++\<close> the run goes on at the position after the top; in a
  run of \<^verbatim>\<open>execute\<close> that top is the matching \<^verbatim>\<open>[\<close>: a \<^verbatim>\<open>[\<close> whose own forward scan
  ends on this \<^verbatim>\<open>]\<close>. With a zero current cell \<^verbatim>\<open>]\<close> pops the stack and the run goes
  on at the next instruction.
\<close>

theorem close_bracket_step:
  assumes lt: "codeptr s < length (code s)" and c: "code s ! codeptr s = CHR '']''"
    and st: "loop_stack s = p # rest"
  shows "(memory s ! memptr s \<noteq> 0 \<longrightarrow>
            dispatch s = (None, s\<lparr>codeptr := p\<rparr>) \<and>
            run_loop s = run_loop (s\<lparr>codeptr := p + 1\<rparr>) \<and>
            run_steps (Suc n) s = run_steps n (s\<lparr>codeptr := p + 1\<rparr>)) \<and>
         (memory s ! memptr s = 0 \<longrightarrow>
            dispatch s = (None, s\<lparr>loop_stack := rest\<rparr>) \<and>
            run_loop s = run_loop (s\<lparr>loop_stack := rest, codeptr := codeptr s + 1\<rparr>) \<and>
            run_steps (Suc n) s =
              run_steps n (s\<lparr>loop_stack := rest, codeptr := codeptr s + 1\<rparr>)) \<and>
         (validateBrackets s0 \<and> run_steps m (prepare s0) = Inl s \<longrightarrow>
            p < codeptr s \<and> code s ! p = CHR ''['' \<and>
            scan_fwd (code s) (p + 1) 1 = (codeptr s + 1, 0))"
proof -
  have a: "dispatch s = (None, s\<lparr>codeptr := p\<rparr>) \<and>
      run_loop s = run_loop (s\<lparr>codeptr := p + 1\<rparr>) \<and>
      run_steps (Suc n) s = run_steps n (s\<lparr>codeptr := p + 1\<rparr>)"
    if nz: "memory s ! memptr s \<noteq> 0"
  proof -
    have d: "dispatch s = (None, s\<lparr>codeptr := p\<rparr>)"
      using c st nz by (simp add: dispatch_close)
    show ?thesis using d lt run_loop_step [OF lt d] by (simp add: advance_def)
  qed
  have b: "dispatch s = (None, s\<lparr>loop_stack := rest\<rparr>) \<and>
      run_loop s = run_loop (s\<lparr>loop_stack := rest, codeptr := codeptr s + 1\<rparr>) \<and>
      run_steps (Suc n) s = run_steps n (s\<lparr>loop_stack := rest, codeptr := codeptr s + 1\<rparr>)"
    if z: "memory s ! memptr s = 0"
  proof -
    have d: "dispatch s = (None, s\<lparr>loop_stack := rest\<rparr>)"
      using c st z by (simp add: dispatch_close)
    show ?thesis using d lt run_loop_step [OF lt d] by (simp add: advance_def)
  qed
  have m: "p < codeptr s \<and> code s ! p = CHR ''['' \<and>
      scan_fwd (code s) (p + 1) 1 = (codeptr s + 1, 0)"
    if "validateBrackets s0" "run_steps m (prepare s0) = Inl s"
  proof -
    have "loop_inv s" using run_steps_loop_inv [OF that] .
    then have "opens (code s) (codeptr s) = p # rest" using st by (simp add: loop_inv_def)
    from opens_top_matches [OF this lt c] show ?thesis .
  qed
  show ?thesis using a b m by blast
qed

text \<open>
  The theorem at the \<^verbatim>\<open>]\<close> of \<^verbatim>\<open>+[+]\<close>, reached after three instructions with the
  cell at 2 (the pointer goes back to 1), and at the same \<^verbatim>\<open>]\<close> with a zero cell (the
  stack is popped).
\<close>

theorem close_bracket_step_witness:
  "run_steps 3 (prepare (loadCode ''+[+]'' (init []))) =
     Inl \<lparr>memory = (replicate 30000 0)[0 := 2], code = ''+[+]'', memptr = 0, codeptr = 3,
       loop_stack = [1], cin = [], cout = []\<rparr> \<and>
   dispatch \<lparr>memory = (replicate 30000 0)[0 := 2], code = ''+[+]'', memptr = 0, codeptr = 3,
       loop_stack = [1], cin = [], cout = []\<rparr> =
     (None, \<lparr>memory = (replicate 30000 0)[0 := 2], code = ''+[+]'', memptr = 0, codeptr = 1,
       loop_stack = [1], cin = [], cout = []\<rparr>) \<and>
   scan_fwd ''+[+]'' 2 1 = (4, 0) \<and>
   dispatch \<lparr>memory = replicate 30000 0, code = ''+[+]'', memptr = 0, codeptr = 3,
       loop_stack = [1], cin = [], cout = []\<rparr> =
     (None, \<lparr>memory = replicate 30000 0, code = ''+[+]'', memptr = 0, codeptr = 3,
       loop_stack = [], cin = [], cout = []\<rparr>)"
proof -
  let ?X = "loadCode ''+[+]'' (init [])"
  let ?T = "\<lparr>memory = (replicate 30000 0)[0 := 2], code = ''+[+]'', memptr = 0, codeptr = 3,
       loop_stack = [1], cin = [], cout = []\<rparr>"
  let ?U = "\<lparr>memory = replicate 30000 0, code = ''+[+]'', memptr = 0, codeptr = 3,
       loop_stack = [1], cin = [], cout = []\<rparr>"
  have v: "validateBrackets ?X" by (simp add: eval_simps)
  have r: "run_steps 3 (prepare ?X) = Inl ?T" by (simp add: eval_simps numeral_3_eq_3)
  have nz: "memory ?T ! memptr ?T \<noteq> 0" by simp
  have z: "memory ?U ! memptr ?U = 0" by simp
  have h: "codeptr ?T < length (code ?T)" "code ?T ! codeptr ?T = CHR '']''"
    "loop_stack ?T = 1 # []" by (simp_all add: numeral_3_eq_3)
  have k: "codeptr ?U < length (code ?U)" "code ?U ! codeptr ?U = CHR '']''"
    "loop_stack ?U = 1 # []" by (simp_all add: numeral_3_eq_3)
  from close_bracket_step [OF h, of 0 ?X 3] v r nz
  have 1: "dispatch ?T = (None, ?T\<lparr>codeptr := 1\<rparr>) \<and> scan_fwd (code ?T) (1 + 1) 1 = (codeptr ?T + 1, 0)"
    by blast
  from close_bracket_step [OF k, of 0 ?X 0] z
  have 2: "dispatch ?U = (None, ?U\<lparr>loop_stack := []\<rparr>)" by blast
  show ?thesis using r 1 2 by (simp add: numeral_2_eq_2)
qed

text \<open>
  Claim C2. Executing \<^verbatim>\<open>>\<close> increments the data pointer. When the incremented pointer
  reaches the tape length, a tape shorter than 1,000,000 cells grows to twice its
  length, capped at 1,000,000, keeping its cells and adding zero cells; a tape of
  1,000,000 cells makes the run abort with \<open>MemoryLimitExceeded\<close>. A program of at
  least 1,000,000 \<^verbatim>\<open>>\<close> returns with that failure.
\<close>

theorem right_grows_or_aborts:
  assumes c: "code s ! codeptr s = CHR ''>''" and m: "memptr s < length (memory s)"
  shows "(memptr s + 1 < length (memory s) \<longrightarrow>
            dispatch s = (None, s\<lparr>memptr := memptr s + 1\<rparr>)) \<and>
         (length (memory s) \<le> memptr s + 1 \<and> length (memory s) < 1000000 \<longrightarrow>
            dispatch s = (None, s\<lparr>memptr := memptr s + 1,
              memory := memory s @
                replicate (min (length (memory s) * 2) 1000000 - length (memory s)) 0\<rparr>) \<and>
            memptr s + 1 < min (length (memory s) * 2) 1000000) \<and>
         (length (memory s) \<le> memptr s + 1 \<and> 1000000 \<le> length (memory s) \<longrightarrow>
            dispatch s = (Some MemoryLimitExceeded, s\<lparr>memptr := memptr s + 1\<rparr>) \<and>
            (codeptr s < length (code s) \<longrightarrow>
               run_loop s = Some (Failed MemoryLimitExceeded, s\<lparr>memptr := memptr s + 1\<rparr>))) \<and>
         (1000000 \<le> n \<and> memory s0 \<noteq> [] \<and> length (memory s0) \<le> 1000000 \<longrightarrow>
            (\<exists>t. execute (loadCode (replicate n CHR ''>'') s0) =
               Some (Failed MemoryLimitExceeded, t)))"
proof -
  have pos: "0 < length (memory s)" using m by linarith
  have a: "memptr s + 1 < length (memory s) \<longrightarrow>
      dispatch s = (None, s\<lparr>memptr := memptr s + 1\<rparr>)"
    using c by (simp add: dispatch_right)
  have b: "length (memory s) \<le> memptr s + 1 \<and> length (memory s) < 1000000 \<longrightarrow>
      dispatch s = (None, s\<lparr>memptr := memptr s + 1,
        memory := memory s @
          replicate (min (length (memory s) * 2) 1000000 - length (memory s)) 0\<rparr>) \<and>
      memptr s + 1 < min (length (memory s) * 2) 1000000"
    using c m pos by (auto simp: dispatch_right resize_grow)
  have d: "length (memory s) \<le> memptr s + 1 \<and> 1000000 \<le> length (memory s) \<longrightarrow>
      dispatch s = (Some MemoryLimitExceeded, s\<lparr>memptr := memptr s + 1\<rparr>) \<and>
      (codeptr s < length (code s) \<longrightarrow>
         run_loop s = Some (Failed MemoryLimitExceeded, s\<lparr>memptr := memptr s + 1\<rparr>))"
    using c by (auto simp: dispatch_right run_loop_fail)
  have e: "\<exists>t. execute (loadCode (replicate n CHR ''>'') s0) =
      Some (Failed MemoryLimitExceeded, t)"
    if n: "1000000 \<le> n" and ne: "memory s0 \<noteq> []" and le: "length (memory s0) \<le> 1000000"
  proof -
    let ?s = "prepare (loadCode (replicate n CHR ''>'') s0)"
    have cd: "code ?s = replicate n CHR ''>''"
      by (simp add: prepare_def loadCode_def is_instr_def)
    have v: "validateBrackets (loadCode (replicate n CHR ''>'') s0)"
      using validate_loop_iff [of 0 "replicate n CHR ''>''"]
      by (simp add: validateBrackets_def loadCode_def is_instr_def spec_balance_def
          bracket_delta_def map_replicate_const sum_list_replicate)
    have "\<exists>t. run_loop ?s = Some (Failed MemoryLimitExceeded, t) \<and>
        memptr t = length (memory t) \<and> length (memory t) = 1000000 \<and>
        loop_stack t = loop_stack ?s \<and> take (length (memory ?s)) (memory t) = memory ?s"
      by (rule run_right_fails [where k = 1000000 and n = n])
        (use n ne le cd in \<open>simp_all add: prepare_def loadCode_def\<close>)
    then show ?thesis using v by (auto simp: execute_def)
  qed
  show ?thesis using a b d e by blast
qed

text \<open>
  The theorem on the fresh interpreter at pointer 0 (a plain move), at pointer 29999
  (the tape doubles to 60000 cells), on a tape of 1,000,000 cells at pointer 999999
  (the abort), and for the program of 1,000,000 \<^verbatim>\<open>>\<close>.
\<close>

theorem right_grows_or_aborts_witness:
  "dispatch ((init [])\<lparr>code := ''>''\<rparr>) = (None, (init [])\<lparr>code := ''>'', memptr := 1\<rparr>) \<and>
   dispatch ((init [])\<lparr>code := ''>'', memptr := 29999\<rparr>) =
     (None, (init [])\<lparr>code := ''>'', memptr := 30000,
        memory := replicate 30000 0 @ replicate 30000 0\<rparr>) \<and>
   dispatch ((init [])\<lparr>code := ''>'', memory := replicate 1000000 0, memptr := 999999\<rparr>) =
     (Some MemoryLimitExceeded,
      (init [])\<lparr>code := ''>'', memory := replicate 1000000 0, memptr := 1000000\<rparr>) \<and>
   execute (loadCode (replicate 1000000 CHR ''>'') (init [])) \<noteq> None \<and>
   fst (the (execute (loadCode (replicate 1000000 CHR ''>'') (init [])))) =
     Failed MemoryLimitExceeded"
proof -
  let ?A = "(init [])\<lparr>code := ''>''\<rparr>"
  let ?B = "(init [])\<lparr>code := ''>'', memptr := 29999\<rparr>"
  let ?C = "(init [])\<lparr>code := ''>'', memory := replicate 1000000 0, memptr := 999999\<rparr>"
  have a: "code ?A ! codeptr ?A = CHR ''>''" "memptr ?A < length (memory ?A)"
    "memptr ?A + 1 < length (memory ?A)"
    by (simp_all add: init_def)
  have b: "code ?B ! codeptr ?B = CHR ''>''" "memptr ?B < length (memory ?B)"
    "length (memory ?B) \<le> memptr ?B + 1 \<and> length (memory ?B) < 1000000"
    by (simp_all add: init_def)
  have c: "code ?C ! codeptr ?C = CHR ''>''" "memptr ?C < length (memory ?C)"
    "length (memory ?C) \<le> memptr ?C + 1 \<and> 1000000 \<le> length (memory ?C)"
    by (simp_all add: init_def)
  have d: "(1000000::nat) \<le> 1000000 \<and> memory (init []) \<noteq> [] \<and>
      length (memory (init [])) \<le> 1000000"
    by (simp add: init_def)
  from right_grows_or_aborts [OF a(1,2), of 0 "init []"] a(3)
  have 1: "dispatch ?A = (None, ?A\<lparr>memptr := memptr ?A + 1\<rparr>)" by blast
  from right_grows_or_aborts [OF b(1,2), of 0 "init []"] b(3)
  have 2: "dispatch ?B = (None, ?B\<lparr>memptr := memptr ?B + 1,
      memory := memory ?B @
        replicate (min (length (memory ?B) * 2) 1000000 - length (memory ?B)) 0\<rparr>)" by blast
  from right_grows_or_aborts [OF c(1,2), of 0 "init []"] c(3)
  have 3: "dispatch ?C = (Some MemoryLimitExceeded, ?C\<lparr>memptr := memptr ?C + 1\<rparr>)" by blast
  from right_grows_or_aborts [OF a(1,2), of 1000000 "init []"] d
  have 4: "\<exists>t. execute (loadCode (replicate 1000000 CHR ''>'') (init [])) =
      Some (Failed MemoryLimitExceeded, t)" by blast
  have e1: "dispatch ?A = (None, (init [])\<lparr>code := ''>'', memptr := 1\<rparr>)"
    using 1 by (simp add: init_def)
  have e2: "dispatch ?B = (None, (init [])\<lparr>code := ''>'', memptr := 30000,
        memory := replicate 30000 0 @ replicate 30000 0\<rparr>)"
    using 2 by (simp add: init_def)
  have e3: "dispatch ?C = (Some MemoryLimitExceeded,
      (init [])\<lparr>code := ''>'', memory := replicate 1000000 0, memptr := 1000000\<rparr>)"
    using 3 by (simp add: init_def)
  from 4 have e4: "execute (loadCode (replicate 1000000 CHR ''>'') (init [])) \<noteq> None \<and>
      fst (the (execute (loadCode (replicate 1000000 CHR ''>'') (init [])))) =
      Failed MemoryLimitExceeded" by auto
  show ?thesis using e1 e2 e3 e4 by blast
qed

text \<open>
  Claim C3. For every loaded program of fewer than \<open>2^31\<close> symbols, \<^verbatim>\<open>validateBrackets\<close>
  returns true if and only if the bracket balance (\<open>+1\<close> for each \<^verbatim>\<open>[\<close>, \<open>-1\<close> for each
  \<^verbatim>\<open>]\<close>) is not negative on any prefix of the program and is exactly zero at the end.
  The bound is the range in which the 32-bit counter \<^verbatim>\<open>int balance\<close> of the source cannot
  overflow, so that the integer counter of \<open>validate_loop\<close> is the counter of the code.
\<close>

theorem validateBrackets_iff_balanced:
  assumes "length (code s) < 2 ^ 31"
  shows "validateBrackets s \<longleftrightarrow>
     (\<forall>k \<le> length (code s). 0 \<le> spec_balance (take k (code s))) \<and> spec_balance (code s) = 0"
  using validate_loop_iff [of 0 "code s"] by (simp add: validateBrackets_def)

text \<open>
  The theorem on \<^verbatim>\<open>[-]\<close>, which is accepted, and on \<^verbatim>\<open>+][\<close>, which is rejected because
  the balance of its first two symbols is negative.
\<close>

theorem validateBrackets_iff_balanced_witness:
  "validateBrackets (loadCode ''[-]'' (init [])) \<and>
   0 \<le> spec_balance (take 1 ''[-]'') \<and> spec_balance ''[-]'' = 0 \<and>
   \<not> validateBrackets (loadCode ''+]['' (init [])) \<and>
   spec_balance (take 2 ''+]['') < 0"
proof -
  have v: "validateBrackets (loadCode ''[-]'' (init []))"
    by (simp add: validateBrackets_def loadCode_def init_def is_instr_def)
  have c1: "code (loadCode ''[-]'' (init [])) = ''[-]''"
    by (simp add: loadCode_def init_def is_instr_def)
  have c2: "code (loadCode ''+]['' (init [])) = ''+][''"
    by (simp add: loadCode_def init_def is_instr_def)
  have l1: "length (code (loadCode ''[-]'' (init []))) < 2 ^ 31" unfolding c1 by simp
  have l2: "length (code (loadCode ''+]['' (init []))) < 2 ^ 31" unfolding c2 by simp
  from v validateBrackets_iff_balanced [OF l1]
  have p: "(\<forall>k \<le> length ''[-]''. 0 \<le> spec_balance (take k ''[-]'')) \<and> spec_balance ''[-]'' = 0"
    unfolding c1 by blast
  have "(1::nat) \<le> length ''[-]''" by simp
  with p have p1: "0 \<le> spec_balance (take 1 ''[-]'')" by blast
  have neg: "spec_balance (take 2 ''+]['') < 0"
    by (simp add: spec_balance_def bracket_delta_def numeral_2_eq_2)
  have "(2::nat) \<le> length ''+][''" by simp
  with neg have "\<not> (\<forall>k \<le> length ''+][''. 0 \<le> spec_balance (take k ''+]['')) "
    by (metis not_less)
  with validateBrackets_iff_balanced [OF l2]
  have n: "\<not> validateBrackets (loadCode ''+]['' (init []))"
    unfolding c2 by blast
  show ?thesis using v p p1 n neg by blast
qed

text \<open>
  Claim C4. On a program that \<^verbatim>\<open>validateBrackets\<close> rejects, \<^verbatim>\<open>execute\<close> returns (it does
  not loop), with the reason \<open>UnmatchedBrackets\<close>, and leaves the whole state, the tape
  included, as it was.
\<close>

theorem execute_invalid:
  "\<not> validateBrackets s \<Longrightarrow> execute s = Some (Failed UnmatchedBrackets, s)"
  by (simp add: execute_def)

text \<open>The theorem on the programs \<^verbatim>\<open>[+\<close> and \<^verbatim>\<open>+]\<close>.\<close>

theorem execute_invalid_witness:
  "\<not> validateBrackets (loadCode ''[+'' (init [])) \<and>
   execute (loadCode ''[+'' (init [])) = Some (Failed UnmatchedBrackets, loadCode ''[+'' (init [])) \<and>
   \<not> validateBrackets (loadCode ''+]'' (init [])) \<and>
   execute (loadCode ''+]'' (init [])) = Some (Failed UnmatchedBrackets, loadCode ''+]'' (init []))"
proof -
  have a: "\<not> validateBrackets (loadCode ''[+'' (init []))"
    by (simp add: validateBrackets_def loadCode_def init_def is_instr_def)
  have b: "\<not> validateBrackets (loadCode ''+]'' (init []))"
    by (simp add: validateBrackets_def loadCode_def init_def is_instr_def)
  show ?thesis using a b execute_invalid [OF a] execute_invalid [OF b] by simp
qed

text \<open>
  Claim C5, as the code has it. The loop-return stack is empty when the dispatch loop
  starts and after a run that ends with \<open>Completed\<close>. A call that fails with
  \<open>UnmatchedBrackets\<close> returns before the stack is cleared and leaves the state as it
  was; a run aborted with \<open>MemoryLimitExceeded\<close> leaves on the stack the positions of
  the loops that were open at the aborting \<^verbatim>\<open>>\<close>. \<open>UnmatchedOpenBracket\<close> and
  \<open>UnmatchedCloseBracket\<close> are never the result of \<^verbatim>\<open>execute\<close>.
\<close>

theorem loop_stack_scoped:
  "loop_stack (prepare s) = [] \<and>
   (execute s = Some (Completed, t) \<longrightarrow> loop_stack t = []) \<and>
   (execute s = Some (Failed UnmatchedBrackets, t) \<longrightarrow> t = s) \<and>
   (execute s = Some (Failed MemoryLimitExceeded, t) \<longrightarrow>
      loop_stack t = opens (code t) (codeptr t)) \<and>
   execute s \<noteq> Some (Failed (UnmatchedOpenBracket p), t) \<and>
   execute s \<noteq> Some (Failed (UnmatchedCloseBracket p), t)"
proof -
  have a: "loop_stack (prepare s) = []" by (simp add: prepare_def)
  have run: "(r = Completed \<and> loop_inv t \<and> length (code t) \<le> codeptr t) \<or>
      (\<exists>u. loop_inv u \<and> codeptr u < length (code u) \<and>
         dispatch u = (Some MemoryLimitExceeded, t) \<and> r = Failed MemoryLimitExceeded)"
    if "validateBrackets s" "execute s = Some (r, t)" for r
  proof -
    from that have "run_loop (prepare s) = Some (r, t)" by (simp add: execute_def)
    then obtain m where "run_steps m (prepare s) = Inr (r, t)"
      using run_loop_run_steps by blast
    from run_steps_result [OF that(1) this] show ?thesis .
  qed
  have b: "loop_stack t = []" if e: "execute s = Some (Completed, t)"
  proof -
    have v: "validateBrackets s" using e by (auto simp: execute_def split: if_splits)
    from run [OF v e] have i: "loop_inv t" and l: "length (code t) \<le> codeptr t" by auto
    then have "codeptr t = length (code t)" by (simp add: loop_inv_def)
    then show ?thesis using i by (simp add: loop_inv_def validateBrackets_def valid_opens_end)
  qed
  have c: "t = s" if e: "execute s = Some (Failed UnmatchedBrackets, t)"
  proof (cases "validateBrackets s")
    case True
    from run [OF True e] show ?thesis by auto
  next
    case False
    with e show ?thesis by (simp add: execute_def)
  qed
  have d: "loop_stack t = opens (code t) (codeptr t)"
    if e: "execute s = Some (Failed MemoryLimitExceeded, t)"
  proof -
    have v: "validateBrackets s" using e by (auto simp: execute_def split: if_splits)
    from run [OF v e] obtain u where u: "loop_inv u" "codeptr u < length (code u)"
      "dispatch u = (Some MemoryLimitExceeded, t)" by auto
    from dispatch_loop_inv(5) [OF u(1,2)] u(3) dispatch_code [of u] show ?thesis by simp
  qed
  have e: "execute s \<noteq> Some (Failed (UnmatchedOpenBracket p), t) \<and>
      execute s \<noteq> Some (Failed (UnmatchedCloseBracket p), t)"
  proof (cases "validateBrackets s")
    case True
    show ?thesis
    proof (intro conjI notI)
      assume "execute s = Some (Failed (UnmatchedOpenBracket p), t)"
      from run [OF True this] show False by auto
    next
      assume "execute s = Some (Failed (UnmatchedCloseBracket p), t)"
      from run [OF True this] show False by auto
    qed
  next
    case False
    then show ?thesis by (simp add: execute_def)
  qed
  show ?thesis using a b c d e by blast
qed

text \<open>
  The theorem on \<^verbatim>\<open>+[-]\<close>, which completes with an empty stack, on \<^verbatim>\<open>+]\<close>, which
  fails the validation, and on \<^verbatim>\<open>+[>+]\<close>, which is aborted at the ceiling.
\<close>

theorem loop_stack_scoped_witness:
  "execute (loadCode ''+[-]'' (init [])) =
     Some (Completed, (init [])\<lparr>code := ''+[-]'', memory := (replicate 30000 0)[0 := 0],
       codeptr := 4\<rparr>) \<and>
   loop_stack ((init [])\<lparr>code := ''+[-]'', memory := (replicate 30000 0)[0 := 0],
       codeptr := 4\<rparr>) = [] \<and>
   execute (loadCode ''+]'' (init [])) =
     Some (Failed UnmatchedBrackets, loadCode ''+]'' (init [])) \<and>
   fst (the (execute (loadCode ''+[>+]'' (init [])))) = Failed MemoryLimitExceeded \<and>
   loop_stack (snd (the (execute (loadCode ''+[>+]'' (init []))))) =
     opens (code (snd (the (execute (loadCode ''+[>+]'' (init []))))))
       (codeptr (snd (the (execute (loadCode ''+[>+]'' (init []))))))"
proof -
  let ?T = "(init [])\<lparr>code := ''+[-]'', memory := (replicate 30000 0)[0 := 0],
       codeptr := 4\<rparr>"
  have e: "execute (loadCode ''+[-]'' (init [])) = Some (Completed, ?T)"
    by (simp add: eval_simps run_loop.simps)
  have f: "execute (loadCode ''+]'' (init [])) =
      Some (Failed UnmatchedBrackets, loadCode ''+]'' (init []))"
    by (simp add: eval_simps)
  obtain t where g: "execute (loadCode ''+[>+]'' (init [])) =
      Some (Failed MemoryLimitExceeded, t)"
    using grow_loop_result by blast
  from loop_stack_scoped [of "loadCode ''+[-]'' (init [])" ?T] e
  have 1: "loop_stack ?T = []" by blast
  from loop_stack_scoped [of "loadCode ''+[>+]'' (init [])" t] g
  have 2: "loop_stack t = opens (code t) (codeptr t)" by blast
  show ?thesis using e f 1 2 unfolding g by simp
qed

text \<open>
  Claim C5 as stated fails: on a fresh interpreter the program \<^verbatim>\<open>+[>+]\<close> is aborted
  with \<open>MemoryLimitExceeded\<close> inside its loop, and the position 1 of its \<^verbatim>\<open>[\<close> is
  still on the loop-return stack when \<^verbatim>\<open>execute\<close> returns.
\<close>

theorem loop_stack_left_by_abort:
  "execute (loadCode ''+[>+]'' (init [])) \<noteq> None \<and>
   fst (the (execute (loadCode ''+[>+]'' (init [])))) = Failed MemoryLimitExceeded \<and>
   loop_stack (snd (the (execute (loadCode ''+[>+]'' (init []))))) = [1] \<and>
   loop_stack (snd (the (execute (loadCode ''+[>+]'' (init []))))) \<noteq> []"
  using grow_loop_result by auto

text \<open>
  Claim C6, as the code has it. On a tape that is not empty, the data pointer is below
  the tape length after every instruction that does not abort, and at the end of a
  completed run; the \<^verbatim>\<open>>\<close> that aborts with \<open>MemoryLimitExceeded\<close> leaves the pointer
  equal to the tape length. \<^verbatim>\<open><\<close> at pointer 0 changes nothing, and the programs
  \<^verbatim>\<open><<<+\<close> and \<^verbatim>\<open>+\<close> complete with the same tape, data pointer, loop-return stack,
  input and output (the instruction pointer ends at the length of each program).
\<close>

theorem data_pointer_in_range:
  assumes ne: "memory s \<noteq> []"
  shows "(run_steps n (prepare s) = Inl t \<longrightarrow> memptr t < length (memory t)) \<and>
         (run_steps n (prepare s) = Inr (Completed, t) \<longrightarrow> memptr t < length (memory t)) \<and>
         (run_steps n (prepare s) = Inr (Failed MemoryLimitExceeded, t) \<longrightarrow>
            memptr t = length (memory t)) \<and>
         (execute s = Some (Completed, t) \<longrightarrow> memptr t < length (memory t)) \<and>
         (execute s = Some (Failed MemoryLimitExceeded, t) \<longrightarrow>
            memptr t = length (memory t)) \<and>
         (code u ! codeptr u = CHR ''<'' \<and> memptr u = 0 \<longrightarrow> dispatch u = (None, u)) \<and>
         execute (loadCode ''<<<+'' s) =
           Some (Completed, (prepare s)\<lparr>code := ''<<<+'',
             memory := (memory (prepare s))[0 := 1], codeptr := 4\<rparr>) \<and>
         execute (loadCode ''+'' s) =
           Some (Completed, (prepare s)\<lparr>code := ''+'',
             memory := (memory (prepare s))[0 := 1], codeptr := 1\<rparr>)"
proof -
  let ?P = "\<lambda>u. memptr u < length (memory u)"
  have a: "memptr t < length (memory t)" if "run_steps n (prepare s) = Inl t"
    using run_steps_Inl [of ?P "prepare s" n t, OF tape_inv_step tape_inv_prepare [OF ne] that]
    by simp
  have r: "(r = Completed \<and> ?P t \<and> length (code t) \<le> codeptr t) \<or>
      (\<exists>u f. ?P u \<and> codeptr u < length (code u) \<and> dispatch u = (Some f, t) \<and> r = Failed f)"
    if "run_steps m (prepare s) = Inr (r, t)" for m r
    using run_steps_Inr [of ?P "prepare s" m r t, OF tape_inv_step tape_inv_prepare [OF ne] that]
    by simp
  have b: "memptr t < length (memory t)" if "run_steps m (prepare s) = Inr (Completed, t)" for m
    using r [OF that] by auto
  have c: "memptr t = length (memory t)"
    if "run_steps m (prepare s) = Inr (Failed MemoryLimitExceeded, t)" for m
    using r [OF that] tape_inv_abort by auto
  have c': "memptr t = length (memory t)" if "execute s = Some (Failed MemoryLimitExceeded, t)"
  proof -
    from that have "run_loop (prepare s) = Some (Failed MemoryLimitExceeded, t)"
      by (auto simp: execute_def split: if_splits)
    then obtain m where "run_steps m (prepare s) = Inr (Failed MemoryLimitExceeded, t)"
      using run_loop_run_steps by blast
    from c [OF this] show ?thesis .
  qed
  have d: "memptr t < length (memory t)" if "execute s = Some (Completed, t)"
  proof -
    from that have "run_loop (prepare s) = Some (Completed, t)"
      by (auto simp: execute_def split: if_splits)
    then obtain m where "run_steps m (prepare s) = Inr (Completed, t)"
      using run_loop_run_steps by blast
    from b [OF this] show ?thesis .
  qed
  have e: "code u ! codeptr u = CHR ''<'' \<and> memptr u = 0 \<longrightarrow> dispatch u = (None, u)"
    by (simp add: dispatch_left)
  show ?thesis using a b c c' d e run_left_plus [OF ne] by blast
qed

text \<open>
  The theorem on the fresh interpreter: after the two instructions of \<^verbatim>\<open>>>\<close>, at a
  \<^verbatim>\<open><\<close> with the pointer at 0, for the two programs \<^verbatim>\<open><<<+\<close> and \<^verbatim>\<open>+\<close>, and for
  the program of 1,000,000 \<^verbatim>\<open>>\<close>, which is aborted.
\<close>

theorem data_pointer_in_range_witness:
  "memory (loadCode ''>>'' (init [])) \<noteq> [] \<and>
   run_steps 2 (prepare (loadCode ''>>'' (init []))) =
     Inl ((init [])\<lparr>code := ''>>'', memptr := 2, codeptr := 2\<rparr>) \<and>
   memptr ((init [])\<lparr>code := ''>>'', memptr := 2, codeptr := 2\<rparr>) <
     length (memory ((init [])\<lparr>code := ''>>'', memptr := 2, codeptr := 2\<rparr>)) \<and>
   dispatch ((init [])\<lparr>code := ''<''\<rparr>) = (None, (init [])\<lparr>code := ''<''\<rparr>) \<and>
   execute (loadCode ''<<<+'' (init [])) =
     Some (Completed, (init [])\<lparr>code := ''<<<+'', memory := (replicate 30000 0)[0 := 1],
       codeptr := 4\<rparr>) \<and>
   execute (loadCode ''+'' (init [])) =
     Some (Completed, (init [])\<lparr>code := ''+'', memory := (replicate 30000 0)[0 := 1],
       codeptr := 1\<rparr>) \<and>
   fst (the (execute (loadCode (replicate 1000000 CHR ''>'') (init [])))) =
     Failed MemoryLimitExceeded \<and>
   memptr (snd (the (execute (loadCode (replicate 1000000 CHR ''>'') (init []))))) =
     length (memory (snd (the (execute (loadCode (replicate 1000000 CHR ''>'') (init []))))))"
proof -
  let ?X = "loadCode ''>>'' (init [])"
  let ?Y = "loadCode (replicate 1000000 CHR ''>'') (init [])"
  let ?T = "(init [])\<lparr>code := ''>>'', memptr := 2, codeptr := 2\<rparr>"
  let ?U = "(init [])\<lparr>code := ''<''\<rparr>"
  have ne: "memory ?X \<noteq> []" by (simp add: loadCode_def init_def)
  have r: "run_steps 2 (prepare ?X) = Inl ?T" by (simp add: eval_simps numeral_2_eq_2)
  have u: "code ?U ! codeptr ?U = CHR ''<'' \<and> memptr ?U = 0" by (simp add: init_def)
  have ne': "memory (init []) \<noteq> []" by (simp add: init_def)
  from data_pointer_in_range [OF ne, of 2 ?T ?U] r u
  have 1: "memptr ?T < length (memory ?T)" "dispatch ?U = (None, ?U)" by blast+
  from data_pointer_in_range [OF ne', of 0 ?T ?U]
  have 2: "execute (loadCode ''<<<+'' (init [])) =
      Some (Completed, (prepare (init []))\<lparr>code := ''<<<+'',
        memory := (memory (prepare (init [])))[0 := 1], codeptr := 4\<rparr>)"
    "execute (loadCode ''+'' (init [])) =
      Some (Completed, (prepare (init []))\<lparr>code := ''+'',
        memory := (memory (prepare (init [])))[0 := 1], codeptr := 1\<rparr>)" by blast+
  have p: "prepare (init []) = init []" by (simp add: prepare_def init_def fill_zero_replicate)
  obtain y where y: "execute ?Y = Some (Failed MemoryLimitExceeded, y)"
    using right_run_result by blast
  have ney: "memory ?Y \<noteq> []" by (simp add: loadCode_def init_def)
  from data_pointer_in_range [OF ney, of 0 y ?U] y
  have 3: "memptr y = length (memory y)" by blast
  have 4: "fst (the (execute ?Y)) = Failed MemoryLimitExceeded \<and>
      memptr (snd (the (execute ?Y))) = length (memory (snd (the (execute ?Y))))"
    unfolding y using 3 by simp
  show ?thesis using ne r 1 2 4 unfolding p by (simp add: init_def)
qed

text \<open>
  Claim C6 as stated fails: on a fresh interpreter the program of 1,000,000 \<^verbatim>\<open>>\<close> is
  aborted by its last instruction, and the data pointer it leaves is not below the tape
  length.
\<close>

theorem data_pointer_at_tape_end_after_abort:
  "execute (loadCode (replicate 1000000 CHR ''>'') (init [])) \<noteq> None \<and>
   fst (the (execute (loadCode (replicate 1000000 CHR ''>'') (init [])))) =
     Failed MemoryLimitExceeded \<and>
   \<not> memptr (snd (the (execute (loadCode (replicate 1000000 CHR ''>'') (init []))))) <
       length (memory (snd (the (execute (loadCode (replicate 1000000 CHR ''>'') (init []))))))"
  using right_run_result by auto

text \<open>
  Claim C7. \<^verbatim>\<open>reset\<close> sets every cell of the tape to 0, both pointers to 0 and the
  loop-return stack to empty; the tape keeps its length, and the program and the
  streams are unchanged.
\<close>

theorem reset_effect:
  "memory (reset s) = replicate (length (memory s)) 0 \<and>
   length (memory (reset s)) = length (memory s) \<and>
   memptr (reset s) = 0 \<and> codeptr (reset s) = 0 \<and> loop_stack (reset s) = [] \<and>
   code (reset s) = code s \<and> cin (reset s) = cin s \<and> cout (reset s) = cout s"
  by (simp add: reset_def fill_zero_replicate)

text \<open>
  Claim C8. \<^verbatim>\<open>+\<close> and \<^verbatim>\<open>-\<close> change the current cell by one modulo 256 and never abort:
  \<^verbatim>\<open>+\<close> on 255 gives 0, \<^verbatim>\<open>-\<close> on 0 gives 255.
\<close>

theorem plus_minus_wrap:
  assumes "memptr s < length (memory s)"
  shows "(code s ! codeptr s = CHR ''+'' \<longrightarrow>
           fst (dispatch s) = None \<and>
           snd (dispatch s) = s\<lparr>memory := (memory s)[memptr s := memory s ! memptr s + 1]\<rparr> \<and>
           unat (memory (snd (dispatch s)) ! memptr s) = (unat (memory s ! memptr s) + 1) mod 256 \<and>
           (memory s ! memptr s = 255 \<longrightarrow> memory (snd (dispatch s)) ! memptr s = 0)) \<and>
         (code s ! codeptr s = CHR ''-'' \<longrightarrow>
           fst (dispatch s) = None \<and>
           snd (dispatch s) = s\<lparr>memory := (memory s)[memptr s := memory s ! memptr s - 1]\<rparr> \<and>
           unat (memory (snd (dispatch s)) ! memptr s) = (unat (memory s ! memptr s) + 255) mod 256 \<and>
           (memory s ! memptr s = 0 \<longrightarrow> memory (snd (dispatch s)) ! memptr s = 255))"
  using assms by (auto simp: dispatch_plus dispatch_minus unat_byte_inc unat_byte_dec)

text \<open>The theorem on a cell holding 255 under \<^verbatim>\<open>+\<close> and a cell holding 0 under \<^verbatim>\<open>-\<close>.\<close>

theorem plus_minus_wrap_witness:
  "memory (snd (dispatch \<lparr>memory = [255], code = ''+'', memptr = 0, codeptr = 0,
      loop_stack = [], cin = [], cout = []\<rparr>)) = [0] \<and>
   memory (snd (dispatch \<lparr>memory = [0], code = ''-'', memptr = 0, codeptr = 0,
      loop_stack = [], cin = [], cout = []\<rparr>)) = [255]"
proof -
  let ?A = "\<lparr>memory = [255::byte], code = ''+'', memptr = 0, codeptr = 0,
      loop_stack = [], cin = [], cout = []\<rparr>"
  let ?B = "\<lparr>memory = [0::byte], code = ''-'', memptr = 0, codeptr = 0,
      loop_stack = [], cin = [], cout = []\<rparr>"
  have a: "memptr ?A < length (memory ?A)" "code ?A ! codeptr ?A = CHR ''+''" by simp_all
  have b: "memptr ?B < length (memory ?B)" "code ?B ! codeptr ?B = CHR ''-''" by simp_all
  from plus_minus_wrap [OF a(1)] a(2)
  have 1: "snd (dispatch ?A) = ?A\<lparr>memory := (memory ?A)[memptr ?A := memory ?A ! memptr ?A + 1]\<rparr>"
    by blast
  from plus_minus_wrap [OF b(1)] b(2)
  have 2: "snd (dispatch ?B) = ?B\<lparr>memory := (memory ?B)[memptr ?B := memory ?B ! memptr ?B - 1]\<rparr>"
    by blast
  show ?thesis unfolding 1 2 by simp
qed

text \<open>
  Claim C9. \<^verbatim>\<open>,\<close> stores the next input byte in the current cell when the read
  succeeds, and 0 at the end of the stream and on a failing read; it never aborts, and
  the run goes on with the next instruction.
\<close>

theorem comma_reads_or_zero:
  assumes c: "code s ! codeptr s = CHR '',''"
  shows "(cin s = Byte b # r \<longrightarrow>
            dispatch s = (None, s\<lparr>memory := (memory s)[memptr s := b], cin := r\<rparr>)) \<and>
         (cin s = [] \<longrightarrow>
            dispatch s = (None, s\<lparr>memory := (memory s)[memptr s := 0], cin := []\<rparr>)) \<and>
         (cin s = ReadError # r \<longrightarrow>
            dispatch s = (None, s\<lparr>memory := (memory s)[memptr s := 0], cin := r\<rparr>)) \<and>
         fst (dispatch s) = None \<and>
         (codeptr s < length (code s) \<longrightarrow>
            run_loop s = run_loop (advance (snd (dispatch s))))"
proof -
  have "run_loop s = run_loop (advance (snd (dispatch s)))" if "codeptr s < length (code s)"
    using run_loop_step [OF that, of "snd (dispatch s)"] dispatch_comma [OF c] by simp
  then show ?thesis using dispatch_comma [OF c] by auto
qed

text \<open>
  The theorem on a stream that starts with the byte 65, on an empty stream, on a stream
  whose first read fails, and on the program \<^verbatim>\<open>,\<close> run with no input, which completes.
\<close>

theorem comma_reads_or_zero_witness:
  "dispatch \<lparr>memory = [7], code = '','', memptr = 0, codeptr = 0,
      loop_stack = [], cin = [Byte 65, Byte 66], cout = []\<rparr> =
     (None, \<lparr>memory = [65], code = '','', memptr = 0, codeptr = 0,
      loop_stack = [], cin = [Byte 66], cout = []\<rparr>) \<and>
   dispatch \<lparr>memory = [7], code = '','', memptr = 0, codeptr = 0,
      loop_stack = [], cin = [], cout = []\<rparr> =
     (None, \<lparr>memory = [0], code = '','', memptr = 0, codeptr = 0,
      loop_stack = [], cin = [], cout = []\<rparr>) \<and>
   dispatch \<lparr>memory = [7], code = '','', memptr = 0, codeptr = 0,
      loop_stack = [], cin = [ReadError, Byte 66], cout = []\<rparr> =
     (None, \<lparr>memory = [0], code = '','', memptr = 0, codeptr = 0,
      loop_stack = [], cin = [Byte 66], cout = []\<rparr>) \<and>
   execute (loadCode '','' (init [])) = Some (Completed, (init [])\<lparr>code := '','',
      memory := (replicate 30000 0)[0 := 0], codeptr := 1\<rparr>)"
proof -
  let ?A = "\<lparr>memory = [7::byte], code = '','', memptr = 0, codeptr = 0,
      loop_stack = [], cin = [Byte 65, Byte 66], cout = []\<rparr>"
  let ?B = "\<lparr>memory = [7::byte], code = '','', memptr = 0, codeptr = 0,
      loop_stack = [], cin = [], cout = []\<rparr>"
  let ?C = "\<lparr>memory = [7::byte], code = '','', memptr = 0, codeptr = 0,
      loop_stack = [], cin = [ReadError, Byte 66], cout = []\<rparr>"
  let ?D = "prepare (loadCode '','' (init []))"
  have a: "code ?A ! codeptr ?A = CHR '',''" "cin ?A = Byte 65 # [Byte 66]" by simp_all
  have b: "code ?B ! codeptr ?B = CHR '',''" "cin ?B = []" by simp_all
  have c: "code ?C ! codeptr ?C = CHR '',''" "cin ?C = ReadError # [Byte 66]" by simp_all
  have d: "code ?D ! codeptr ?D = CHR '',''" "cin ?D = []" "codeptr ?D < length (code ?D)"
    by (simp_all add: eval_simps)
  from comma_reads_or_zero [OF a(1)] a(2)
  have 1: "dispatch ?A = (None, ?A\<lparr>memory := (memory ?A)[memptr ?A := 65], cin := [Byte 66]\<rparr>)"
    by blast
  from comma_reads_or_zero [OF b(1)] b(2)
  have 2: "dispatch ?B = (None, ?B\<lparr>memory := (memory ?B)[memptr ?B := 0], cin := []\<rparr>)"
    by blast
  from comma_reads_or_zero [OF c(1)] c(2)
  have 3: "dispatch ?C = (None, ?C\<lparr>memory := (memory ?C)[memptr ?C := 0], cin := [Byte 66]\<rparr>)"
    by blast
  from comma_reads_or_zero [OF d(1), of undefined undefined] d(2,3)
  have 4: "dispatch ?D = (None, ?D\<lparr>memory := (memory ?D)[memptr ?D := 0], cin := []\<rparr>)"
    "run_loop ?D = run_loop (advance (snd (dispatch ?D)))" by blast+
  have 5: "execute (loadCode '','' (init [])) = run_loop ?D" by (simp add: eval_simps)
  have 6: "run_loop (advance (snd (dispatch ?D))) =
      Some (Completed, (init [])\<lparr>code := '','', memory := (replicate 30000 0)[0 := 0],
        codeptr := 1\<rparr>)"
    unfolding 4(1) by (subst run_loop.simps) (simp add: eval_simps)
  show ?thesis using 1 2 3 unfolding 5 4(2) 6 by simp
qed

text \<open>
  Claim C10. For a program that \<^verbatim>\<open>validateBrackets\<close> accepts, the forward scan from any
  \<^verbatim>\<open>[\<close> ends with balance 0, no state the dispatch loop goes through makes the
  \<^verbatim>\<open>switch\<close> return \<open>UnmatchedOpenBracket\<close> or \<open>UnmatchedCloseBracket\<close>, the stack is not
  empty when a \<^verbatim>\<open>]\<close> is executed, and neither failure is the result of the run.
\<close>

theorem validated_no_bracket_abort:
  assumes v: "validateBrackets s"
  shows "(k < length (code s) \<and> code s ! k = CHR ''['' \<longrightarrow>
           snd (scan_fwd (code s) (k + 1) 1) = 0) \<and>
         (run_steps n (prepare s) = Inl t \<and> codeptr t < length (code t) \<longrightarrow>
           fst (dispatch t) \<noteq> Some (UnmatchedOpenBracket p) \<and>
           fst (dispatch t) \<noteq> Some (UnmatchedCloseBracket p) \<and>
           (code t ! codeptr t = CHR '']'' \<longrightarrow> loop_stack t \<noteq> [])) \<and>
         run_steps n (prepare s) \<noteq> Inr (Failed (UnmatchedOpenBracket p), t) \<and>
         run_steps n (prepare s) \<noteq> Inr (Failed (UnmatchedCloseBracket p), t) \<and>
         execute s \<noteq> Some (Failed (UnmatchedOpenBracket p), t) \<and>
         execute s \<noteq> Some (Failed (UnmatchedCloseBracket p), t)"
proof -
  have a: "k < length (code s) \<and> code s ! k = CHR ''['' \<longrightarrow>
      snd (scan_fwd (code s) (k + 1) 1) = 0"
    using valid_scan_open [OF v] by blast
  have b: "fst (dispatch t) \<noteq> Some (UnmatchedOpenBracket p) \<and>
      fst (dispatch t) \<noteq> Some (UnmatchedCloseBracket p) \<and>
      (code t ! codeptr t = CHR '']'' \<longrightarrow> loop_stack t \<noteq> [])"
    if "run_steps n (prepare s) = Inl t" "codeptr t < length (code t)"
  proof -
    have i: "loop_inv t" using run_steps_loop_inv [OF v that(1)] .
    have "loop_stack t \<noteq> []" if "code t ! codeptr t = CHR '']''"
      using dispatch_loop_inv(2) [OF i \<open>codeptr t < length (code t)\<close>, of "codeptr t"] that
      by (auto simp: dispatch_close)
    then show ?thesis using dispatch_loop_inv(1,2) [OF i that(2)] by blast
  qed
  have c: "run_steps m (prepare s) \<noteq> Inr (Failed (UnmatchedOpenBracket p), t) \<and>
      run_steps m (prepare s) \<noteq> Inr (Failed (UnmatchedCloseBracket p), t)" for m
    using run_steps_result [OF v, of m _ t] by auto
  have d: "execute s \<noteq> Some (Failed (UnmatchedOpenBracket p), t) \<and>
      execute s \<noteq> Some (Failed (UnmatchedCloseBracket p), t)"
    using v c by (auto simp: execute_def run_loop_iff_steps)
  show ?thesis using a b c d by blast
qed

text \<open>
  The theorem on \<^verbatim>\<open>+[-]\<close>: the scan from its \<^verbatim>\<open>[\<close>, the state at its \<^verbatim>\<open>]\<close> after
  three instructions, and the result of the run.
\<close>

theorem validated_no_bracket_abort_witness:
  "validateBrackets (loadCode ''+[-]'' (init [])) \<and>
   snd (scan_fwd ''+[-]'' 2 1) = 0 \<and>
   run_steps 3 (prepare (loadCode ''+[-]'' (init []))) =
     Inl ((init [])\<lparr>code := ''+[-]'', memory := (replicate 30000 0)[0 := 0], codeptr := 3,
       loop_stack := [1]\<rparr>) \<and>
   fst (dispatch ((init [])\<lparr>code := ''+[-]'', memory := (replicate 30000 0)[0 := 0],
       codeptr := 3, loop_stack := [1]\<rparr>)) \<noteq> Some (UnmatchedCloseBracket 3) \<and>
   execute (loadCode ''+[-]'' (init [])) \<noteq> Some (Failed (UnmatchedOpenBracket 1),
     loadCode ''+[-]'' (init []))"
proof -
  let ?X = "loadCode ''+[-]'' (init [])"
  let ?T = "(init [])\<lparr>code := ''+[-]'', memory := (replicate 30000 0)[0 := 0], codeptr := 3,
       loop_stack := [1]\<rparr>"
  have v: "validateBrackets ?X" by (simp add: eval_simps)
  have k: "1 < length (code ?X) \<and> code ?X ! 1 = CHR ''[''" by (simp add: eval_simps)
  have r: "run_steps 3 (prepare ?X) = Inl ?T" by (simp add: eval_simps numeral_3_eq_3)
  have l: "codeptr ?T < length (code ?T)" by simp
  from validated_no_bracket_abort [OF v, of 1 3 ?T 3] k r l
  have 1: "snd (scan_fwd (code ?X) (1 + 1) 1) = 0"
    "fst (dispatch ?T) \<noteq> Some (UnmatchedCloseBracket 3)" by blast+
  from validated_no_bracket_abort [OF v, of 1 3 ?X 1]
  have 2: "execute ?X \<noteq> Some (Failed (UnmatchedOpenBracket 1), ?X)" by blast
  have c: "code ?X = ''+[-]''" by (simp add: eval_simps)
  show ?thesis using v r 1 2 unfolding c by (simp add: numeral_2_eq_2)
qed

end
